theory Spec2Isabelle
  imports Main "HOL-Library.Sublist"
begin

section \<open>Batch Splitter\<close>

text \<open>
  Both \<open>migration_to_db\<close> and \<open>schema_to_db\<close> compute their batches as
  \<^verbatim>\<open>re.split(r"(?<=)GO\n", f.read())[:-1]\<close>.
  The lookbehind \<^verbatim>\<open>(?<=)\<close> is empty and always succeeds, so the pattern matches the three
  characters \<open>G\<close>, \<open>O\<close>, newline wherever they occur. \<open>re.split\<close> scans from the left, cuts
  at every match and resumes after it; \<open>[:-1]\<close> drops the last piece.
\<close>

definition GO_sep :: string where
  "GO_sep = ''GO\<newline>''"

text \<open>The raw result of \<open>re.split\<close>: the pieces between the matches, the last piece included.\<close>

fun re_split_GO :: "string \<Rightarrow> string list" where
  "re_split_GO [] = [[]]"
| "re_split_GO (c # cs) =
     (if prefix GO_sep (c # cs) then [] # re_split_GO (drop 2 cs)
      else (case re_split_GO cs of [] \<Rightarrow> [[c]] | b # bs \<Rightarrow> (c # b) # bs))"

text \<open>The slice \<open>[:-1]\<close> of a non-empty list.\<close>

definition Batch_Splitter :: "string \<Rightarrow> string list" where
  "Batch_Splitter text = butlast (re_split_GO text)"

text \<open>The number of positions of a text at which the separator string occurs.\<close>

fun count_sep :: "string \<Rightarrow> nat" where
  "count_sep [] = 0"
| "count_sep (c # cs) = (if prefix GO_sep (c # cs) then 1 else 0) + count_sep cs"

text \<open>Python's \<open>sep.join(parts)\<close>.\<close>

fun join :: "string \<Rightarrow> string list \<Rightarrow> string" where
  "join sep [] = []"
| "join sep [b] = b"
| "join sep (b # bs) = b @ sep @ join sep bs"

text \<open>
  The splitter as the specification words it, for comparison: a boundary only where a
  whole line is \<open>GO\<close>, that is where the separator starts at the beginning of a line.
  The flag says whether the scan is at the beginning of a line.
\<close>

fun spec_split :: "bool \<Rightarrow> string \<Rightarrow> string list" where
  "spec_split bol [] = [[]]"
| "spec_split bol (c # cs) =
     (if bol \<and> prefix GO_sep (c # cs) then [] # spec_split True (drop 2 cs)
      else (case spec_split (c = CHR 0x0A) cs of [] \<Rightarrow> [[c]] | b # bs \<Rightarrow> (c # b) # bs))"

definition Spec_Batch_Splitter :: "string \<Rightarrow> string list" where
  "Spec_Batch_Splitter text = butlast (spec_split True text)"

section \<open>Batch Executor\<close>

text \<open>
  What the commands do to the outside world is recorded as a list of events: the
  statements handed to \<open>connection.execute\<close>, the lines printed, and the opening and closing
  of connections.
\<close>

datatype 'e event =
    Print_trying_to_connect string
  | Open_connection
  | Print_preparing
  | Print_dropping string
  | Print_executing nat
  | Execute string
  | Print_failed_on_batch nat nat
  | Print_exc 'e
  | Close_connection

text \<open>
  A connection: \<open>connection.execute\<close> takes the server's state and a statement, and gives
  the new state together with the exception it raises, if any. The loops catch
  \<open>Exception\<close>, which is every error \<open>execute\<close> raises.
\<close>

type_synonym ('s, 'e) connection = "'s \<Rightarrow> string \<Rightarrow> 's \<times> 'e option"

text \<open>
  The loop \<^verbatim>\<open>for i, batch in enumerate(batches): try: ... except Exception as exc: ...\<close>
  of \<open>migration_to_db\<close> and \<open>schema_to_db\<close>; \<open>n\<close> is \<open>len(batches)\<close>, \<open>i\<close> the index.
\<close>

fun batch_loop ::
  "('s, 'e) connection \<Rightarrow> nat \<Rightarrow> nat \<Rightarrow> string list \<Rightarrow> 's \<Rightarrow> 's \<times> 'e event list" where
  "batch_loop exec n i [] st = (st, [])"
| "batch_loop exec n i (batch # rest) st =
     (case exec st batch of (st1, r) \<Rightarrow>
        (case batch_loop exec n (Suc i) rest st1 of (st2, evs) \<Rightarrow>
           (st2, Execute batch
                 # (case r of None \<Rightarrow> []
                    | Some exc \<Rightarrow> [Print_failed_on_batch (i + 1) n, Print_exc exc])
                 @ evs)))"

text \<open>The line \<open>Executing n batches...\<close> and the loop.\<close>

definition Batch_Executor ::
  "('s, 'e) connection \<Rightarrow> string list \<Rightarrow> 's \<Rightarrow> 's \<times> 'e event list" where
  "Batch_Executor exec batches st =
     (case batch_loop exec (length batches) 0 batches st of
        (st1, evs) \<Rightarrow> (st1, Print_executing (length batches) # evs))"

text \<open>The statements submitted, in order, and the failure reports printed, in order.\<close>

fun attempted :: "'e event list \<Rightarrow> string list" where
  "attempted [] = []"
| "attempted (Execute b # evs) = b # attempted evs"
| "attempted (_ # evs) = attempted evs"

fun reported :: "'e event list \<Rightarrow> (nat \<times> nat) list" where
  "reported [] = []"
| "reported (Print_failed_on_batch k n # evs) = (k, n) # reported evs"
| "reported (_ # evs) = reported evs"

text \<open>
  What the server answers when the batches are submitted one after the other, and the
  1-based positions of the answers that are exceptions.
\<close>

fun outcomes :: "('s, 'e) connection \<Rightarrow> 's \<Rightarrow> string list \<Rightarrow> 'e option list" where
  "outcomes exec st [] = []"
| "outcomes exec st (b # bs) = (case exec st b of (st1, r) \<Rightarrow> r # outcomes exec st1 bs)"

fun failing :: "nat \<Rightarrow> 'e option list \<Rightarrow> nat list" where
  "failing i [] = []"
| "failing i (None # rs) = failing (Suc i) rs"
| "failing i (Some e # rs) = Suc i # failing (Suc i) rs"


text \<open>A server that records what it is sent and rejects the batch \<open>B2\<close>.\<close>

definition flaky :: "(string list, string) connection" where
  "flaky st b = (st @ [b], if b = ''B2'' then Some ''syntax error'' else None)"

section \<open>Schema Deployer and Migration Runner\<close>

text \<open>Python's \<open>str.split(sep)\<close>, \<open>str.strip(chars)\<close> and \<open>str.endswith(suffix)\<close>.\<close>

fun py_split :: "string \<Rightarrow> string \<Rightarrow> string list" where
  "py_split sep [] = [[]]"
| "py_split sep (c # cs) =
     (if prefix sep (c # cs) then [] # py_split sep (drop (length sep - 1) cs)
      else (case py_split sep cs of [] \<Rightarrow> [[c]] | b # bs \<Rightarrow> (c # b) # bs))"

definition py_strip :: "'a list \<Rightarrow> 'a list \<Rightarrow> 'a list" where
  "py_strip chars s =
     rev (dropWhile (\<lambda>c. c \<in> set chars) (rev (dropWhile (\<lambda>c. c \<in> set chars) s)))"

definition endswith :: "string \<Rightarrow> string \<Rightarrow> bool" where
  "endswith s suf = suffix suf s"

text \<open>
  The exceptions that leave a command: the unpacking of an address that does not split in
  two raises \<open>ValueError\<close>, the empty list of drivers indexed at 0 raises
  \<open>IndexError\<close>, and an exception of \<open>execute\<close> outside the \<open>try\<close> is raised on.
\<close>

datatype 'e uncaught = ValueError | IndexError | Raised 'e

text \<open>\<^verbatim>\<open>target.strip("[").strip("]").split("].[")\<close>, unpacked into two names.\<close>

definition parse_address :: "string \<Rightarrow> (string \<times> string) option" where
  "parse_address target =
     (case py_split ''].['' (py_strip '']'' (py_strip ''['' target)) of
        [server, db] \<Rightarrow> Some (server, db)
      | _ \<Rightarrow> None)"

text \<open>\<^verbatim>\<open>[x for x in pyodbc.drivers() if x.endswith('SQL Server')][0]\<close>\<close>

definition sql_server_driver :: "string list \<Rightarrow> string option" where
  "sql_server_driver drivers =
     (case filter (\<lambda>x. endswith x ''SQL Server'') drivers of [] \<Rightarrow> None | d # _ \<Rightarrow> Some d)"

definition drop_statement :: "string \<Rightarrow> string" where
  "drop_statement target_db = ''DROP DATABASE IF EXISTS ['' @ target_db @ ''];''"

text \<open>
  The body of the loop over the files of \<open>schema_to_db\<close>: the file is read and split, a
  connection is opened, the database is dropped when \<open>overwrite\<close> is set (outside any
  \<open>try\<close>), and the batches are executed.
\<close>

definition deploy_file ::
  "('s, 'e) connection \<Rightarrow> bool \<Rightarrow> string \<Rightarrow> string \<Rightarrow> 's \<Rightarrow> 's \<times> 'e event list \<times> 'e option" where
  "deploy_file exec overwrite target_db text st =
     (let batches = Batch_Splitter text in
      if overwrite then
        (case exec st (drop_statement target_db) of
           (st1, Some exc) \<Rightarrow>
             (st1, [Open_connection, Print_preparing, Print_dropping target_db,
                    Execute (drop_statement target_db), Close_connection], Some exc)
         | (st1, None) \<Rightarrow>
             (case Batch_Executor exec batches st1 of (st2, evs) \<Rightarrow>
                (st2, [Open_connection, Print_preparing, Print_dropping target_db,
                       Execute (drop_statement target_db)] @ evs @ [Close_connection], None)))
      else
        (case Batch_Executor exec batches st of (st2, evs) \<Rightarrow>
           (st2, [Open_connection, Print_preparing] @ evs @ [Close_connection], None)))"

text \<open>
  The loop over the files that \<open>os.walk\<close> yields for one target, given as the texts that
  reading them returns, in the order of the walk.
\<close>

fun deploy_files ::
  "('s, 'e) connection \<Rightarrow> bool \<Rightarrow> string \<Rightarrow> string list \<Rightarrow> 's \<Rightarrow> 's \<times> 'e event list \<times> 'e option" where
  "deploy_files exec overwrite target_db [] st = (st, [], None)"
| "deploy_files exec overwrite target_db (text # files) st =
     (case deploy_file exec overwrite target_db text st of
        (st1, evs, Some exc) \<Rightarrow> (st1, evs, Some exc)
      | (st1, evs, None) \<Rightarrow>
          (case deploy_files exec overwrite target_db files st1 of
             (st2, evs2, r) \<Rightarrow> (st2, evs @ evs2, r)))"

text \<open>
  \<open>schema_to_db\<close>: \<open>drivers\<close> is what \<open>pyodbc.drivers()\<close> returns and \<open>walk server db\<close> the
  texts of the files under \<open>schema\<close>/server/db.
\<close>

fun schema_to_db ::
  "string list \<Rightarrow> (string \<Rightarrow> string \<Rightarrow> string list) \<Rightarrow> ('s, 'e) connection
   \<Rightarrow> string list \<Rightarrow> bool \<Rightarrow> 's \<Rightarrow> 's \<times> 'e event list \<times> 'e uncaught option" where
  "schema_to_db drivers walk exec [] overwrite st = (st, [], None)"
| "schema_to_db drivers walk exec (target # targets) overwrite st =
     (case parse_address target of
        None \<Rightarrow> (st, [], Some ValueError)
      | Some (target_server, target_db) \<Rightarrow>
          (case sql_server_driver drivers of
             None \<Rightarrow> (st, [], Some IndexError)
           | Some d \<Rightarrow>
               (case deploy_files exec overwrite target_db (walk target_server target_db) st of
                  (st1, evs, Some exc) \<Rightarrow>
                    (st1, Print_trying_to_connect target_server # evs, Some (Raised exc))
                | (st1, evs, None) \<Rightarrow>
                    (case schema_to_db drivers walk exec targets overwrite st1 of
                       (st2, evs2, r) \<Rightarrow>
                         (st2, Print_trying_to_connect target_server # evs @ evs2, r)))))"

text \<open>\<open>migration_to_db\<close>: \<open>read target\<close> is the text of \<open>migrations\<close>/target\<open>.sql\<close>.\<close>

fun migration_to_db ::
  "string list \<Rightarrow> (string \<Rightarrow> string) \<Rightarrow> ('s, 'e) connection
   \<Rightarrow> string \<Rightarrow> string list \<Rightarrow> 's \<Rightarrow> 's \<times> 'e event list \<times> 'e uncaught option" where
  "migration_to_db drivers read exec target_server [] st = (st, [], None)"
| "migration_to_db drivers read exec target_server (target # targets) st =
     (case sql_server_driver drivers of
        None \<Rightarrow> (st, [], Some IndexError)
      | Some d \<Rightarrow>
          (case Batch_Executor exec (Batch_Splitter (read target)) st of
             (st1, evs) \<Rightarrow>
               (case migration_to_db drivers read exec target_server targets st1 of
                  (st2, evs2, r) \<Rightarrow>
                    (st2, [Print_trying_to_connect target_server, Open_connection] @ evs
                          @ [Close_connection] @ evs2, r))))"

text \<open>A server that accepts every statement and records it, and a target with two files.\<close>

definition recording :: "(string list, string) connection" where
  "recording st b = (st @ [b], None)"

definition two_files :: "string \<Rightarrow> string \<Rightarrow> string list" where
  "two_files server db =
     [''CREATE TABLE a (i int)\<newline>GO\<newline>'', ''CREATE TABLE b (i int)\<newline>GO\<newline>'']"

section \<open>Directory trees\<close>

text \<open>
  A path is the list of its components. A directory holds its files, as pairs of a name
  and the text of the file, and its subdirectories, as pairs of a name and a directory, in
  the order in which \<open>os.walk\<close> lists them.
\<close>

type_synonym path = "string list"

datatype dir = Dir (dfiles: "(string \<times> string) list") (dsubs: "(string \<times> dir) list")

text \<open>
  \<open>os.walk(top, topdown=False)\<close>: a directory is listed when the walk enters it, its
  subdirectories are walked, and then the triple of the directory (its path, the names of
  its subdirectories, the names of its files) is yielded, after the triples of everything
  below it. \<open>os.walk(top)\<close> yields the triple of a directory before the triples below it.
\<close>

fun walk_bottom_up :: "path \<Rightarrow> dir \<Rightarrow> (path \<times> string list \<times> string list) list" where
  "walk_bottom_up p (Dir fs ds) =
     concat (map (\<lambda>(n, d). walk_bottom_up (p @ [n]) d) ds) @ [(p, map fst ds, map fst fs)]"

fun walk_top_down :: "path \<Rightarrow> dir \<Rightarrow> (path \<times> string list \<times> string list) list" where
  "walk_top_down p (Dir fs ds) =
     (p, map fst ds, map fst fs) # concat (map (\<lambda>(n, d). walk_top_down (p @ [n]) d) ds)"

text \<open>\<open>any(files)\<close> on a list of strings: some element is truthy, that is not empty.\<close>

definition py_any :: "string list \<Rightarrow> bool" where
  "py_any xs = (\<exists>x\<in>set xs. x \<noteq> [])"

text \<open>
  One round of the loop over the bottom-up walk in \<open>cleanup\<close>. The state is the set
  \<open>deleted\<close> and the list of the calls of \<open>os.rmdir\<close> made so far. The \<open>break\<close> only
  cuts the search for a subdirectory that is not deleted short. \<open>os.rmdir\<close> is called on
  a directory that had no file when it was listed and whose subdirectories have all been
  removed, so it finds the directory empty.
\<close>

definition prune_step ::
  "path set \<times> path list \<Rightarrow> path \<times> string list \<times> string list \<Rightarrow> path set \<times> path list" where
  "prune_step s t =
     (case s of (deleted, rmdirs) \<Rightarrow>
      case t of (current_dir, subdirs, files) \<Rightarrow>
        (let still_has_subdirs = (\<exists>subdir\<in>set subdirs. current_dir @ [subdir] \<notin> deleted) in
         if \<not> py_any files \<and> \<not> still_has_subdirs
         then (insert current_dir deleted, rmdirs @ [current_dir])
         else (deleted, rmdirs)))"

text \<open>The loop, from the empty set, over the walk that starts at \<open>base_dir\<close>.\<close>

definition prune_empty_dirs :: "path \<Rightarrow> dir \<Rightarrow> path set \<times> path list" where
  "prune_empty_dirs base_dir tree = foldl prune_step ({}, []) (walk_bottom_up base_dir tree)"

text \<open>
  In a directory of a file system no two subdirectories have the same name and no file
  has the empty name.
\<close>

fun wf_tree :: "dir \<Rightarrow> bool" where
  "wf_tree (Dir fs ds) =
     (distinct (map fst ds) \<and> (\<forall>f\<in>set (map fst fs). f \<noteq> []) \<and> (\<forall>(n, d)\<in>set ds. wf_tree d))"

text \<open>A directory with no file anywhere below it.\<close>

fun no_files :: "dir \<Rightarrow> bool" where
  "no_files (Dir fs ds) = (fs = [] \<and> (\<forall>(n, d)\<in>set ds. no_files d))"

text \<open>The directory reached from a directory along a relative path.\<close>

fun subdir_at :: "dir \<Rightarrow> path \<Rightarrow> dir option" where
  "subdir_at d [] = Some d"
| "subdir_at d (n # p) = (case map_of (dsubs d) n of None \<Rightarrow> None | Some s \<Rightarrow> subdir_at s p)"

text \<open>The paths of the directories at or below \<open>p\<close> that have no file anywhere below them.\<close>

fun emptied :: "path \<Rightarrow> dir \<Rightarrow> path set" where
  "emptied p (Dir fs ds) =
     (\<Union>(n, d)\<in>set ds. emptied (p @ [n]) d) \<union> (if no_files (Dir fs ds) then {p} else {})"

text \<open>
  The tree of the specification's example, \<open>d1/d2/\<close> empty and \<open>d1/file.txt\<close>, and a tree
  without any file.
\<close>

definition example_tree :: dir where
  "example_tree = Dir [] [(''d1'', Dir [(''file.txt'', ''x'')] [(''d2'', Dir [] [])])]"

definition empty_tree :: dir where
  "empty_tree = Dir [] [(''a'', Dir [] [(''b'', Dir [] [])]), (''c'', Dir [] [])]"

section \<open>The file loop of cleanup\<close>

text \<open>
  The files that \<open>cleanup\<close> works on are addressed by their path strings. A store maps a
  path to nothing (no such file), to the exception that opening or decoding the file
  raises, or to the text of the file. The state is the store and the set of the
  directories that exist.
\<close>

datatype os_error =
  FileNotFoundError | PermissionError | IsADirectoryError | UnicodeDecodeError | FileExistsError

type_synonym store = "string \<rightharpoonup> os_error + string"

type_synonym fs_state = "store \<times> string set"

text \<open>
  How the command ends: it runs to its end, it returns from the \<open>except\<close> branch of the
  read, or an exception of a later step, which no \<open>try\<close> encloses, leaves it.
\<close>

datatype status = Completed | Returned | Raised os_error

datatype cleanup_event =
    Print_cleaning_up nat
  | Print_got_error nat nat string
  | Print_error os_error

text \<open>\<^verbatim>\<open>with open(file, "r", encoding="utf-8") as f: text = f.read()\<close>\<close>

definition open_read :: "store \<Rightarrow> string \<Rightarrow> os_error + string" where
  "open_read store file =
     (case store file of None \<Rightarrow> Inl FileNotFoundError | Some (Inl exc) \<Rightarrow> Inl exc
      | Some (Inr text) \<Rightarrow> Inr text)"

text \<open>
  Python's \<open>str.replace(old, new)\<close>: the occurrences of \<open>old\<close> are replaced from the left,
  without overlap; the empty \<open>old\<close> matches before every character and at the end.
\<close>

fun py_replace :: "string \<Rightarrow> string \<Rightarrow> string \<Rightarrow> string" where
  "py_replace old new [] = (if old = [] then new else [])"
| "py_replace old new (c # cs) =
     (if old = [] then new @ c # py_replace old new cs
      else if prefix old (c # cs) then new @ py_replace old new (drop (length old - 1) cs)
      else c # py_replace old new cs)"

text \<open>\<^verbatim>\<open>newfile.rsplit('\\', 1)[0]\<close>: what precedes the last backslash, or the whole string.\<close>

definition rsplit_head :: "string \<Rightarrow> string" where
  "rsplit_head s =
     (if CHR 0x5C \<in> set s then rev (tl (dropWhile (\<lambda>c. c \<noteq> CHR 0x5C) (rev s))) else s)"

text \<open>\<open>os.makedirs\<close> creates the directory and the directories above it.\<close>

definition makedirs :: "string \<Rightarrow> string set \<Rightarrow> string set" where
  "makedirs d dirs =
     dirs \<union> insert d (set (map (\<lambda>i. take i d) (filter (\<lambda>i. d ! i = CHR 0x5C) [0..<length d])))"

text \<open>
  The loop over \<open>name_swaps.items()\<close>: every swap is applied to the text, and to the new
  file name when \<open>swap_filenames\<close> is set.
\<close>

fun swap_names :: "(string \<times> string) list \<Rightarrow> bool \<Rightarrow> string \<times> string \<Rightarrow> string \<times> string" where
  "swap_names [] swap_filenames (text, newfile) = (text, newfile)"
| "swap_names ((source, target) # swaps) swap_filenames (text, newfile) =
     swap_names swaps swap_filenames
       (py_replace source target text,
        if swap_filenames then py_replace source target newfile else newfile)"

text \<open>
  What the loop does with a file once it is read: the text is rewritten and written back;
  when the name changes, the directory of the new name is created if it is missing, an
  existing file of that name is removed if \<open>overwrite\<close> is set, and the file is renamed.
  \<open>os.makedirs\<close> raises \<open>FileExistsError\<close> when its path is a file, and \<open>os.rename\<close>
  on Windows, for which the command is written, raises it when the new name exists, as a
  file or as a directory. No \<open>try\<close> encloses these calls.
\<close>

definition clean_file ::
  "(string \<Rightarrow> string) \<Rightarrow> (string \<times> string) list \<Rightarrow> bool \<Rightarrow> bool \<Rightarrow> string \<Rightarrow> string
   \<Rightarrow> fs_state \<Rightarrow> os_error option \<times> fs_state" where
  "clean_file regex_remove name_swaps swap_filenames overwrite file text st =
     (case st of (store, dirs) \<Rightarrow>
      case swap_names name_swaps swap_filenames (regex_remove text, file) of
        (text1, newfile) \<Rightarrow>
          (let store1 = store(file \<mapsto> Inr text1) in
           if swap_filenames \<and> file \<noteq> newfile then
             (let newfile_dir = rsplit_head newfile in
              if newfile_dir \<notin> dirs \<and> store1 newfile_dir \<noteq> None
              then (Some FileExistsError, (store1, dirs))
              else
                (let dirs1 = (if newfile_dir \<in> dirs then dirs else makedirs newfile_dir dirs);
                     store2 = (if overwrite \<and> store1 newfile \<noteq> None
                               then store1(newfile := None) else store1)
                 in if store2 newfile \<noteq> None \<or> newfile \<in> dirs1
                    then (Some FileExistsError, (store2, dirs1))
                    else (None, (store2(newfile := store2 file, file := None), dirs1))))
           else (None, (store1, dirs))))"

text \<open>
  The loop \<^verbatim>\<open>for i, file in enumerate(files)\<close>; \<open>n\<close> is \<open>len(files)\<close>. A read that raises
  is reported and the command returns.
\<close>

fun cleanup_loop ::
  "(string \<Rightarrow> string) \<Rightarrow> (string \<times> string) list \<Rightarrow> bool \<Rightarrow> bool \<Rightarrow> nat \<Rightarrow> nat \<Rightarrow> string list
   \<Rightarrow> fs_state \<Rightarrow> status \<times> fs_state \<times> cleanup_event list" where
  "cleanup_loop regex_remove name_swaps swap_filenames overwrite n i [] st = (Completed, st, [])"
| "cleanup_loop regex_remove name_swaps swap_filenames overwrite n i (file # rest) st =
     (case open_read (fst st) file of
        Inl exc \<Rightarrow> (Returned, st, [Print_got_error i n file, Print_error exc])
      | Inr text \<Rightarrow>
          (case clean_file regex_remove name_swaps swap_filenames overwrite file text st of
             (Some exc, st1) \<Rightarrow> (Raised exc, st1, [])
           | (None, st1) \<Rightarrow>
               cleanup_loop regex_remove name_swaps swap_filenames overwrite n (Suc i) rest st1))"

text \<open>
  \<open>cleanup\<close>: \<open>files\<close> is what \<open>glob\<close> returns, \<open>regex_remove\<close> the function
  \<^verbatim>\<open>re.sub(regex_remove, "", text, flags=re.MULTILINE)\<close>, \<open>name_swaps\<close> the items of the
  dictionary, and \<open>scan st\<close> the tree that \<open>os.walk(base_dir)\<close> finds in the state \<open>st\<close>.
  The last component of the result is the list of the calls of \<open>os.rmdir\<close>.
\<close>

definition cleanup ::
  "string list \<Rightarrow> (string \<Rightarrow> string) \<Rightarrow> (string \<times> string) list \<Rightarrow> bool \<Rightarrow> bool \<Rightarrow> bool
   \<Rightarrow> path \<Rightarrow> (fs_state \<Rightarrow> dir) \<Rightarrow> fs_state
   \<Rightarrow> status \<times> fs_state \<times> cleanup_event list \<times> path list" where
  "cleanup files regex_remove name_swaps swap_filenames remove_empty_dirs overwrite
     base_dir scan st =
     (case cleanup_loop regex_remove name_swaps swap_filenames overwrite (length files) 0 files st of
        (Completed, st1, evs) \<Rightarrow>
          (Completed, st1, Print_cleaning_up (length files) # evs,
           if remove_empty_dirs then snd (prune_empty_dirs base_dir (scan st1)) else [])
      | (outcome, st1, evs) \<Rightarrow> (outcome, st1, Print_cleaning_up (length files) # evs, []))"

text \<open>Three files, of which the second cannot be read.\<close>

definition three_files :: fs_state where
  "three_files =
     ([''a.sql'' \<mapsto> Inr ''SELECT x'', ''b.sql'' \<mapsto> Inl PermissionError,
       ''c.sql'' \<mapsto> Inr ''SELECT x''], {})"

section \<open>Schema Stager: the files of from_db\<close>

text \<open>
  The file system below \<open>base_dir\<close> is a directory tree; paths are relative to
  \<open>base_dir\<close>. \<open>file_at\<close> is the text of the file at a path, if there is one.
\<close>

fun file_at :: "dir \<Rightarrow> path \<Rightarrow> string option" where
  "file_at d [] = None"
| "file_at d [f] = map_of (dfiles d) f"
| "file_at d (n # m # p) =
     (case map_of (dsubs d) n of None \<Rightarrow> None | Some s \<Rightarrow> file_at s (m # p))"

text \<open>\<open>os.remove\<close> of a file of the tree.\<close>

fun os_remove :: "path \<Rightarrow> dir \<Rightarrow> dir" where
  "os_remove [] d = d"
| "os_remove [f] (Dir fs ds) = Dir (filter (\<lambda>(n, c). n \<noteq> f) fs) ds"
| "os_remove (n # m # p) (Dir fs ds) =
     Dir fs (map (\<lambda>(k, s). if k = n then (k, os_remove (m # p) s) else (k, s)) ds)"

text \<open>
  \<^verbatim>\<open>for file in files: if file.endswith(".sql"): os.remove(os.path.join(root, file))\<close>
\<close>

definition remove_sql_files :: "path \<Rightarrow> string list \<Rightarrow> dir \<Rightarrow> dir" where
  "remove_sql_files root files fs =
     foldl (\<lambda>fs file. if endswith file ''.sql'' then os_remove (root @ [file]) fs else fs) fs files"

text \<open>
  The deletion step of \<open>from_db\<close> under \<open>overwrite\<close>: if the schema directory of the target
  exists, the loop over \<open>os.walk(schema_base_dir)\<close>.
\<close>

definition purge_schema :: "path \<Rightarrow> dir \<Rightarrow> dir" where
  "purge_schema schema_base_dir fs =
     (case subdir_at fs schema_base_dir of
        None \<Rightarrow> fs
      | Some d \<Rightarrow>
          foldl (\<lambda>fs (root, subdirs, files). remove_sql_files root files fs) fs
            (walk_top_down schema_base_dir d))"

text \<open>\<open>os.makedirs\<close>, writing a file, \<open>shutil.move\<close> of a file and \<open>shutil.rmtree\<close> on the tree.\<close>

fun makedirs_tree :: "path \<Rightarrow> dir \<Rightarrow> dir" where
  "makedirs_tree [] d = d"
| "makedirs_tree (n # p) (Dir fs ds) =
     (case map_of ds n of
        None \<Rightarrow> Dir fs (ds @ [(n, makedirs_tree p (Dir [] []))])
      | Some x \<Rightarrow> Dir fs (map (\<lambda>(k, s). if k = n then (k, makedirs_tree p s) else (k, s)) ds))"

fun write_file :: "path \<Rightarrow> string \<Rightarrow> dir \<Rightarrow> dir" where
  "write_file [] c d = d"
| "write_file [f] c (Dir fs ds) = Dir (filter (\<lambda>(n, c). n \<noteq> f) fs @ [(f, c)]) ds"
| "write_file (n # m # p) c (Dir fs ds) =
     Dir fs (map (\<lambda>(k, s). if k = n then (k, write_file (m # p) c s) else (k, s)) ds)"

definition shutil_move :: "path \<Rightarrow> path \<Rightarrow> dir \<Rightarrow> dir" where
  "shutil_move src dst fs =
     (case file_at fs src of None \<Rightarrow> fs | Some c \<Rightarrow> os_remove src (write_file dst c fs))"

fun rmtree :: "path \<Rightarrow> dir \<Rightarrow> dir" where
  "rmtree [] d = d"
| "rmtree [n] (Dir fs ds) = Dir fs (filter (\<lambda>(k, s). k \<noteq> n) ds)"
| "rmtree (n # m # p) (Dir fs ds) =
     Dir fs (map (\<lambda>(k, s). if k = n then (k, rmtree (m # p) s) else (k, s)) ds)"

text \<open>
  The loop that moves the files out of the staging directory: the target directory of a
  file is its directory with the staging prefix taken off.
\<close>

definition move_staged :: "path \<Rightarrow> dir \<Rightarrow> dir" where
  "move_staged db_stg_dir fs =
     (case subdir_at fs db_stg_dir of
        None \<Rightarrow> fs
      | Some d \<Rightarrow>
          foldl (\<lambda>fs (root, subdirs, files).
                   foldl (\<lambda>fs file.
                            (let target_dir = drop (length db_stg_dir) root;
                                 fs1 = (if subdir_at fs target_dir = None
                                        then makedirs_tree target_dir fs else fs)
                             in shutil_move (root @ [file]) (target_dir @ [file]) fs1))
                     fs files)
            fs (walk_top_down db_stg_dir d))"

text \<open>
  What \<open>from_db\<close> does to the files of one source once the scripting engine has filled the
  staging directory \<open>.stg\<close>/slug: the deletion step if \<open>overwrite\<close> is set, then the
  move of the staged files, then the removal of the staging directory.
\<close>

definition from_db_files :: "bool \<Rightarrow> string \<Rightarrow> string \<Rightarrow> string \<Rightarrow> dir \<Rightarrow> dir" where
  "from_db_files overwrite source_server source_db slug fs =
     (let db_stg_dir = [''.stg'', slug];
          schema_base_dir = [''schema'', source_server, source_db];
          fs1 = (if overwrite then purge_schema schema_base_dir fs else fs);
          fs2 = move_staged db_stg_dir fs1
      in if subdir_at fs2 db_stg_dir = None then fs2 else rmtree db_stg_dir fs2)"

text \<open>
  A destination with a stale script, a text file and a script that is scripted again, and
  a staging directory with two scripts.
\<close>

definition staged_tree :: dir where
  "staged_tree =
     Dir []
       [(''schema'', Dir [] [(''srv'', Dir [] [(''db'',
            Dir [(''old.sql'', ''stale''), (''notes.txt'', ''keep'')]
                [(''dbo'', Dir [(''t.sql'', ''v1'')] [])])])]),
        (''.stg'', Dir [] [(''srv-db'', Dir []
            [(''schema'', Dir [] [(''srv'', Dir [] [(''db'',
                Dir [(''new.sql'', ''fresh'')] [(''dbo'', Dir [(''t.sql'', ''v2'')] [])])])])])])]"

section \<open>slugify\<close>

text \<open>
  A Python string is the list of its code points. What \<open>slugify\<close> asks of the Unicode
  character database, through \<open>unicodedata.normalize\<close>, \<open>str.lower\<close> and the classes
  \<^verbatim>\<open>\w\<close> and \<^verbatim>\<open>\s\<close> of \<open>re\<close>, is a parameter; on ASCII the
  answers are fixed and written out.
\<close>

type_synonym ustring = "nat list"

record udb =
  udb_nfkc :: "ustring \<Rightarrow> ustring"
  udb_nfkd :: "ustring \<Rightarrow> ustring"
  udb_lower :: "ustring \<Rightarrow> ustring"
  udb_word :: "nat \<Rightarrow> bool"
  udb_space :: "nat \<Rightarrow> bool"

text \<open>
  On ASCII: \<open>lower\<close> maps \<open>A\<close>-\<open>Z\<close> to \<open>a\<close>-\<open>z\<close>; \<^verbatim>\<open>\w\<close> is the letters, the
  digits and the underscore; \<^verbatim>\<open>\s\<close> on a \<open>str\<close> pattern is the code points 9 to 13,
  28 to 31 and 32; both normal forms leave an ASCII string as it is.
\<close>

definition is_ascii :: "ustring \<Rightarrow> bool" where
  "is_ascii s = list_all (\<lambda>c. c < 128) s"

definition ascii_upper :: "nat \<Rightarrow> bool" where
  "ascii_upper c = (65 \<le> c \<and> c \<le> 90)"

definition ascii_lower :: "nat \<Rightarrow> nat" where
  "ascii_lower c = (if ascii_upper c then c + 32 else c)"

definition ascii_word :: "nat \<Rightarrow> bool" where
  "ascii_word c = (48 \<le> c \<and> c \<le> 57 \<or> 65 \<le> c \<and> c \<le> 90 \<or> c = 95 \<or> 97 \<le> c \<and> c \<le> 122)"

definition ascii_space :: "nat \<Rightarrow> bool" where
  "ascii_space c = (9 \<le> c \<and> c \<le> 13 \<or> 28 \<le> c \<and> c \<le> 32)"

definition normalize_NFKC :: "udb \<Rightarrow> ustring \<Rightarrow> ustring" where
  "normalize_NFKC U s = (if is_ascii s then s else udb_nfkc U s)"

definition normalize_NFKD :: "udb \<Rightarrow> ustring \<Rightarrow> ustring" where
  "normalize_NFKD U s = (if is_ascii s then s else udb_nfkd U s)"

definition py_lower :: "udb \<Rightarrow> ustring \<Rightarrow> ustring" where
  "py_lower U s = (if is_ascii s then map ascii_lower s else udb_lower U s)"

definition is_word :: "udb \<Rightarrow> nat \<Rightarrow> bool" where
  "is_word U c = (if c < 128 then ascii_word c else udb_word U c)"

definition is_space :: "udb \<Rightarrow> nat \<Rightarrow> bool" where
  "is_space U c = (if c < 128 then ascii_space c else udb_space U c)"

text \<open>
  \<^verbatim>\<open>re.sub(r'[-\s]+', '-', value)\<close>: every maximal run of hyphens and white space
  becomes one hyphen (code point 45).
\<close>

definition hyphen_or_space :: "udb \<Rightarrow> nat \<Rightarrow> bool" where
  "hyphen_or_space U c = (c = 45 \<or> is_space U c)"

function collapse :: "udb \<Rightarrow> ustring \<Rightarrow> ustring" where
  "collapse U [] = []"
| "collapse U (c # cs) =
     (if hyphen_or_space U c then 45 # collapse U (dropWhile (hyphen_or_space U) cs)
      else c # collapse U cs)"
  by pat_completeness auto

termination
  by (relation "measure (\<lambda>(U, s). length s)") (auto simp: length_dropWhile_le le_imp_less_Suc)

text \<open>
  \<open>slugify\<close>. Without \<open>allow_unicode\<close> the value is normalised to NFKD and
  \<^verbatim>\<open>.encode('ascii', 'ignore').decode('ascii')\<close> drops what is not ASCII; then the
  value is lowered, \<^verbatim>\<open>re.sub(r'[^\w\s-]', '', ...)\<close> keeps the word characters, the
  white space and the hyphens, the runs are collapsed and \<^verbatim>\<open>.strip('-_')\<close>
  (code points 45 and 95) trims both ends.
\<close>

definition slugify :: "udb \<Rightarrow> ustring \<Rightarrow> bool \<Rightarrow> ustring" where
  "slugify U value allow_unicode =
     (let value1 = (if allow_unicode then normalize_NFKC U value
                    else filter (\<lambda>c. c < 128) (normalize_NFKD U value));
          value2 = filter (\<lambda>c. is_word U c \<or> is_space U c \<or> c = 45) (py_lower U value1)
      in py_strip [45, 95] (collapse U value2))"

text \<open>
  The shape of a slug: no two hyphens in a row; only hyphens, underscores, digits and
  lower-case ASCII letters; neither a hyphen nor an underscore at either end.
\<close>

fun single_hyphens :: "ustring \<Rightarrow> bool" where
  "single_hyphens [] = True"
| "single_hyphens [c] = True"
| "single_hyphens (a # b # cs) = (\<not> (a = 45 \<and> b = 45) \<and> single_hyphens (b # cs))"

definition slug_char :: "nat \<Rightarrow> bool" where
  "slug_char c = (c = 45 \<or> c = 95 \<or> 48 \<le> c \<and> c \<le> 57 \<or> 97 \<le> c \<and> c \<le> 122)"

definition trimmed :: "ustring \<Rightarrow> bool" where
  "trimmed r = (r = [] \<or> hd r \<notin> {45, 95} \<and> last r \<notin> {45, 95})"

text \<open>
  The part of the Unicode character database that concerns ASCII and the Hangul letters:
  the leading consonants, vowels and trailing consonants of the conjoining jamo, and the
  syllables. NFKD decomposes a syllable into its letters; NFKC decomposes and then
  composes a leading consonant and a vowel, and a syllable without trailing consonant
  and a trailing consonant, by the arithmetic of the Unicode Standard; the letters are
  word characters, have no case and are not white space.
\<close>

definition is_L :: "nat \<Rightarrow> bool" where "is_L c = (0x1100 \<le> c \<and> c \<le> 0x1112)"

definition is_V :: "nat \<Rightarrow> bool" where "is_V c = (0x1161 \<le> c \<and> c \<le> 0x1175)"

definition is_T :: "nat \<Rightarrow> bool" where "is_T c = (0x11A8 \<le> c \<and> c \<le> 0x11C2)"

text \<open>
  The part of the Unicode character database that concerns ASCII and the Hangul letters:
  the leading consonants, vowels and trailing consonants of the conjoining jamo, and the
  syllables. NFKD decomposes a syllable into its letters; NFKC decomposes and then
  composes a leading consonant and a vowel, and a syllable without trailing consonant
  and a trailing consonant, by the arithmetic of the Unicode Standard; the letters are
  word characters, have no case and are not white space.
\<close>

definition is_LV :: "nat \<Rightarrow> bool" where
  "is_LV c = (0xAC00 \<le> c \<and> c \<le> 0xD7A3 \<and> (c - 0xAC00) mod 28 = 0)"

fun compose_hangul :: "ustring \<Rightarrow> ustring" where
  "compose_hangul [] = []"
| "compose_hangul [c] = [c]"
| "compose_hangul (a # b # cs) =
     (if is_L a \<and> is_V b
      then compose_hangul ((0xAC00 + ((a - 0x1100) * 21 + (b - 0x1161)) * 28) # cs)
      else if is_LV a \<and> is_T b then (a + (b - 0x11A7)) # compose_hangul cs
      else a # compose_hangul (b # cs))"

definition decompose_hangul :: "nat \<Rightarrow> ustring" where
  "decompose_hangul c =
     (if 0xAC00 \<le> c \<and> c \<le> 0xD7A3
      then [0x1100 + (c - 0xAC00) div 588, 0x1161 + ((c - 0xAC00) mod 588) div 28]
           @ (if (c - 0xAC00) mod 28 = 0 then [] else [0x11A7 + (c - 0xAC00) mod 28])
      else [c])"

definition hangul_udb :: udb where
  "hangul_udb =
     \<lparr> udb_nfkc = (\<lambda>s. compose_hangul (concat (map decompose_hangul s))),
       udb_nfkd = (\<lambda>s. concat (map decompose_hangul s)),
       udb_lower = map ascii_lower,
       udb_word = (\<lambda>c. 0x1100 \<le> c \<and> c \<le> 0x11FF \<or> 0xAC00 \<le> c \<and> c \<le> 0xD7A3),
       udb_space = (\<lambda>c. False) \<rparr>"

text \<open>The code points of an ASCII string literal.\<close>

definition codepoints :: "string \<Rightarrow> ustring" where
  "codepoints s = map of_char s"

text \<open>
  The shape of a result for any database, and what makes a result a fixed point: the
  normalisation and the lowering leave it as it is.
\<close>

definition slug_shape :: "udb \<Rightarrow> ustring \<Rightarrow> bool" where
  "slug_shape U r =
     (list_all (\<lambda>c. c = 45 \<or> is_word U c \<and> \<not> is_space U c) r \<and> single_hyphens r \<and> trimmed r)"

definition stable :: "udb \<Rightarrow> bool \<Rightarrow> ustring \<Rightarrow> bool" where
  "stable U allow_unicode r =
     ((if allow_unicode then normalize_NFKC U r else filter (\<lambda>c. c < 128) (normalize_NFKD U r)) = r
      \<and> py_lower U r = r)"

section \<open>Properties of the Batch Splitter\<close>

lemma re_split_GO_nonempty: "re_split_GO t \<noteq> []"
  by (induction t rule: re_split_GO.induct) (auto split: list.splits)

lemma prefix_GO_sep_iff: "prefix GO_sep t \<longleftrightarrow> (\<exists>r. t = GO_sep @ r)"
  by (auto simp: prefix_def)

lemma re_split_GO_sep [simp]: "re_split_GO (GO_sep @ r) = [] # re_split_GO r"
  by (simp add: GO_sep_def)

lemma count_sep_sep [simp]: "count_sep (GO_sep @ r) = Suc (count_sep r)"
  by (simp add: GO_sep_def)

lemma count_sep_0_not_prefix: "count_sep t = 0 \<Longrightarrow> \<not> prefix GO_sep t"
  by (cases t) (auto simp: GO_sep_def split: if_splits)

lemma no_straddle:
  assumes "count_sep b = 0" "b \<noteq> []"
  shows "\<not> prefix GO_sep (b @ GO_sep @ r)"
proof
  assume p: "prefix GO_sep (b @ GO_sep @ r)"
  from assms(2) obtain c b1 where b: "b = c # b1" by (cases b) auto
  show False
  proof (cases b1)
    case Nil
    with p b show False by (simp add: GO_sep_def)
  next
    case (Cons d b2)
    show False
    proof (cases b2)
      case Nil
      with p b Cons show False by (simp add: GO_sep_def)
    next
      case (Cons e b3)
      with p b \<open>b1 = d # b2\<close> have "prefix GO_sep b" by (simp add: GO_sep_def)
      with assms(1) show False using count_sep_0_not_prefix by blast
    qed
  qed
qed

lemma count_sep_Cons_0: "count_sep (c # b) = 0 \<Longrightarrow> count_sep b = 0"
  by (simp split: if_splits)

lemma re_split_GO_batch:
  "count_sep b = 0 \<Longrightarrow> re_split_GO (b @ GO_sep @ r) = b # re_split_GO r"
proof (induction b)
  case Nil
  then show ?case by simp
next
  case (Cons c b)
  have np: "\<not> prefix GO_sep ((c # b) @ GO_sep @ r)"
    using no_straddle [OF Cons.prems] by simp
  from Cons.prems have "count_sep b = 0" by (rule count_sep_Cons_0)
  then have "re_split_GO (b @ GO_sep @ r) = b # re_split_GO r" by (rule Cons.IH)
  with np show ?case by simp
qed

lemma re_split_GO_no_sep: "count_sep t = 0 \<Longrightarrow> re_split_GO t = [t]"
proof (induction t)
  case Nil
  then show ?case by simp
next
  case (Cons c t)
  from Cons.prems have "count_sep t = 0" by (rule count_sep_Cons_0)
  then have "re_split_GO t = [t]" by (rule Cons.IH)
  moreover from Cons.prems have "\<not> prefix GO_sep (c # t)" by (rule count_sep_0_not_prefix)
  ultimately show ?case by simp
qed

lemma re_split_GO_batches:
  "\<forall>b\<in>set bs. count_sep b = 0 \<Longrightarrow> count_sep r = 0 \<Longrightarrow>
   re_split_GO (concat (map (\<lambda>b. b @ GO_sep) bs) @ r) = bs @ [r]"
  by (induction bs) (simp_all add: re_split_GO_no_sep re_split_GO_batch)

lemma count_sep_batch:
  "count_sep b = 0 \<Longrightarrow> count_sep (b @ GO_sep @ r) = Suc (count_sep r)"
proof (induction b)
  case Nil
  then show ?case by simp
next
  case (Cons c b)
  have np: "\<not> prefix GO_sep ((c # b) @ GO_sep @ r)"
    using no_straddle [OF Cons.prems] by simp
  from Cons.prems have "count_sep b = 0" by (rule count_sep_Cons_0)
  then have "count_sep (b @ GO_sep @ r) = Suc (count_sep r)" by (rule Cons.IH)
  with np show ?case by simp
qed

lemma count_sep_batches:
  "\<forall>b\<in>set bs. count_sep b = 0 \<Longrightarrow>
   count_sep (concat (map (\<lambda>b. b @ GO_sep) bs) @ r) = length bs + count_sep r"
  by (induction bs) (simp_all add: count_sep_batch)

lemma prefix_drop2: "prefix GO_sep (c # cs) \<Longrightarrow> c # cs = GO_sep @ drop 2 cs"
  by (auto simp: prefix_def GO_sep_def)

lemma count_sep_drop2: "prefix GO_sep (c # cs) \<Longrightarrow> count_sep cs = count_sep (drop 2 cs)"
  by (auto simp: prefix_def GO_sep_def)

lemma length_re_split_GO: "length (re_split_GO t) = Suc (count_sep t)"
  by (induction t rule: re_split_GO.induct)
     (auto split: list.splits simp: count_sep_drop2 re_split_GO_nonempty)

lemma hd_re_split_prefix: "prefix (hd (re_split_GO t)) t"
  by (induction t rule: re_split_GO.induct) (auto split: list.splits)

lemma unsplit:
  "concat (map (\<lambda>b. b @ GO_sep) (butlast (re_split_GO t))) @ last (re_split_GO t) = t"
proof (induction t rule: re_split_GO.induct)
  case 1
  then show ?case by simp
next
  case (2 c cs)
  show ?case
  proof (cases "prefix GO_sep (c # cs)")
    case True
    with 2 prefix_drop2 [OF True] show ?thesis
      by (simp add: re_split_GO_nonempty)
  next
    case False
    with 2 show ?thesis
      by (cases "re_split_GO cs") (auto simp: re_split_GO_nonempty)
  qed
qed

lemma pieces_no_sep: "b \<in> set (re_split_GO t) \<Longrightarrow> count_sep b = 0"
proof (induction t arbitrary: b rule: re_split_GO.induct)
  case 1
  then show ?case by simp
next
  case (2 c cs)
  show ?case
  proof (cases "prefix GO_sep (c # cs)")
    case True
    with 2 show ?thesis by auto
  next
    case False
    obtain x xs where r: "re_split_GO cs = x # xs"
      using re_split_GO_nonempty by (cases "re_split_GO cs") auto
    have "prefix x cs" using hd_re_split_prefix [of cs] r by simp
    then have "\<not> prefix GO_sep (c # x)"
      using False by (meson Cons_prefix_Cons prefix_order.trans)
    moreover have "count_sep x = 0" using 2(2) [OF False] r by simp
    ultimately have "count_sep (c # x) = 0" by simp
    with 2 False r show ?thesis by auto
  qed
qed

lemma join_append_sep:
  "bs \<noteq> [] \<Longrightarrow> join sep bs @ sep = concat (map (\<lambda>b. b @ sep) bs)"
  by (induction sep bs rule: join.induct) auto

text \<open>
  Claim C2. The claim: a batch boundary is placed exactly at each line that consists of the
  token \<open>GO\<close> followed by a newline, and nowhere else, in particular not where \<open>GO\<close> ends a
  longer word. The code cuts inside the word \<open>LOGO\<close> at the end of a line: on a script whose
  only separator line is its last line it returns two batches, the first one cut short,
  where the splitter of the specification returns the one statement.
\<close>

theorem Batch_Splitter_cuts_inside_word:
  "Batch_Splitter ''SELECT 1 AS LOGO\<newline>GO\<newline>'' = [''SELECT 1 AS LO'', '''']
   \<and> Spec_Batch_Splitter ''SELECT 1 AS LOGO\<newline>GO\<newline>'' = [''SELECT 1 AS LOGO\<newline>'']"
  by (simp add: Batch_Splitter_def Spec_Batch_Splitter_def GO_sep_def)

text \<open>
  Claim C3. The last element of the raw split is dropped. A text made of \<open>n\<close> batches that
  contain no separator, each followed by a separator, and of a remainder \<open>r\<close> without
  separator, has exactly \<open>n\<close> separator occurrences; the raw split is the \<open>n\<close> batches and
  the remainder, and the splitter returns exactly the \<open>n\<close> batches, batch \<open>i\<close> being the
  text between separator \<open>i - 1\<close> (or the start) and separator \<open>i\<close>. With \<open>n = 0\<close> the
  text has no separator and the result is empty; with \<open>r\<close> empty the text ends right
  after its last separator.
\<close>

theorem Batch_Splitter_drops_last_piece:
  assumes "\<forall>b\<in>set bs. count_sep b = 0"
    and "count_sep r = 0"
    and "text = concat (map (\<lambda>b. b @ GO_sep) bs) @ r"
  shows "count_sep text = length bs
    \<and> re_split_GO text = bs @ [r]
    \<and> Batch_Splitter text = bs
    \<and> length (Batch_Splitter text) = count_sep text"
  using assms
  by (simp add: Batch_Splitter_def re_split_GO_batches count_sep_batches)

theorem Batch_Splitter_drops_last_piece_witness:
  "count_sep ''CREATE SCHEMA s\<newline>'' = 0
   \<and> count_sep ''CREATE TABLE s.t (i int)\<newline>'' = 0
   \<and> count_sep '''' = 0
   \<and> count_sep ''CREATE SCHEMA s\<newline>GO\<newline>CREATE TABLE s.t (i int)\<newline>GO\<newline>'' = 2
   \<and> Batch_Splitter ''CREATE SCHEMA s\<newline>GO\<newline>CREATE TABLE s.t (i int)\<newline>GO\<newline>''
       = [''CREATE SCHEMA s\<newline>'', ''CREATE TABLE s.t (i int)\<newline>'']
   \<and> Batch_Splitter ''CREATE SCHEMA s\<newline>'' = []"
proof -
  have h1: "\<forall>b\<in>set [''CREATE SCHEMA s\<newline>'', ''CREATE TABLE s.t (i int)\<newline>'']. count_sep b = 0"
    by (simp add: GO_sep_def)
  have h2: "count_sep '''' = 0" by simp
  have h3: "''CREATE SCHEMA s\<newline>GO\<newline>CREATE TABLE s.t (i int)\<newline>GO\<newline>''
    = concat (map (\<lambda>b. b @ GO_sep) [''CREATE SCHEMA s\<newline>'', ''CREATE TABLE s.t (i int)\<newline>'']) @ ''''"
    by (simp add: GO_sep_def)
  have h4: "\<forall>b\<in>set ([] :: string list). count_sep b = 0" by simp
  have h5: "count_sep ''CREATE SCHEMA s\<newline>'' = 0" by (simp add: GO_sep_def)
  have h6: "''CREATE SCHEMA s\<newline>'' = concat (map (\<lambda>b. b @ GO_sep) []) @ ''CREATE SCHEMA s\<newline>''"
    by simp
  show ?thesis
    using h1 h2 Batch_Splitter_drops_last_piece [OF h1 h2 h3]
      Batch_Splitter_drops_last_piece [OF h4 h5 h6]
    by simp
qed

text \<open>
  Claim C8. Round trip: for a text with at least one separator occurrence, joining the
  batches with the separator and appending one more separator gives back the text up to
  and including its last separator occurrence: what follows in the text is the last piece
  of the raw split, which contains no separator, and only that piece is lost.
\<close>

theorem Batch_Splitter_round_trip:
  assumes "0 < count_sep text"
  shows "join GO_sep (Batch_Splitter text) @ GO_sep @ last (re_split_GO text) = text
    \<and> count_sep (last (re_split_GO text)) = 0"
proof -
  have "length (Batch_Splitter text) = count_sep text"
    by (simp add: Batch_Splitter_def length_re_split_GO)
  with assms have ne: "Batch_Splitter text \<noteq> []" by auto
  have j: "join GO_sep (Batch_Splitter text) @ GO_sep
      = concat (map (\<lambda>b. b @ GO_sep) (Batch_Splitter text))"
    using ne by (rule join_append_sep)
  have "join GO_sep (Batch_Splitter text) @ GO_sep @ last (re_split_GO text)
      = (join GO_sep (Batch_Splitter text) @ GO_sep) @ last (re_split_GO text)"
    by simp
  also have "\<dots> = concat (map (\<lambda>b. b @ GO_sep) (Batch_Splitter text)) @ last (re_split_GO text)"
    by (simp only: j)
  also have "\<dots> = text"
    unfolding Batch_Splitter_def by (rule unsplit)
  finally have "join GO_sep (Batch_Splitter text) @ GO_sep @ last (re_split_GO text) = text" .
  moreover have "count_sep (last (re_split_GO text)) = 0"
    by (rule pieces_no_sep [of _ "text"]) (simp add: re_split_GO_nonempty)
  ultimately show ?thesis by simp
qed

theorem Batch_Splitter_round_trip_witness:
  "0 < count_sep ''a\<newline>GO\<newline>b\<newline>GO\<newline>SELECT 1''
   \<and> join GO_sep (Batch_Splitter ''a\<newline>GO\<newline>b\<newline>GO\<newline>SELECT 1'') @ GO_sep = ''a\<newline>GO\<newline>b\<newline>GO\<newline>''
   \<and> last (re_split_GO ''a\<newline>GO\<newline>b\<newline>GO\<newline>SELECT 1'') = ''SELECT 1''"
proof -
  have h: "0 < count_sep ''a\<newline>GO\<newline>b\<newline>GO\<newline>SELECT 1''"
    by (simp add: GO_sep_def)
  have l: "last (re_split_GO ''a\<newline>GO\<newline>b\<newline>GO\<newline>SELECT 1'') = ''SELECT 1''"
    by (simp add: GO_sep_def)
  show ?thesis
    using h l Batch_Splitter_round_trip [OF h]
    by (simp add: GO_sep_def)
qed

section \<open>Properties of the Batch Executor\<close>

lemma attempted_append: "attempted (xs @ ys) = attempted xs @ attempted ys"
  by (induction xs rule: attempted.induct) auto

lemma reported_append: "reported (xs @ ys) = reported xs @ reported ys"
  by (induction xs rule: reported.induct) auto

lemma attempted_batch_loop:
  "batch_loop exec n i bs st = (st', evs) \<Longrightarrow> attempted evs = bs"
proof (induction bs arbitrary: i st st' evs)
  case Nil
  then show ?case by simp
next
  case (Cons b bs)
  obtain st1 r where e: "exec st b = (st1, r)" by (cases "exec st b")
  obtain st2 evs2 where l: "batch_loop exec n (Suc i) bs st1 = (st2, evs2)"
    by (cases "batch_loop exec n (Suc i) bs st1")
  from Cons.IH [OF l] have "attempted evs2 = bs" .
  with Cons.prems e l show ?case
    by (cases r) (auto simp: attempted_append)
qed

lemma reported_batch_loop:
  "batch_loop exec n i bs st = (st', evs) \<Longrightarrow>
   reported evs = map (\<lambda>k. (k, n)) (failing i (outcomes exec st bs))"
proof (induction bs arbitrary: i st st' evs)
  case Nil
  then show ?case by simp
next
  case (Cons b bs)
  obtain st1 r where e: "exec st b = (st1, r)" by (cases "exec st b")
  obtain st2 evs2 where l: "batch_loop exec n (Suc i) bs st1 = (st2, evs2)"
    by (cases "batch_loop exec n (Suc i) bs st1")
  from Cons.IH [OF l]
  have "reported evs2 = map (\<lambda>k. (k, n)) (failing (Suc i) (outcomes exec st1 bs))" .
  with Cons.prems e l show ?case
    by (cases r) (auto simp: reported_append)
qed

text \<open>
  Claim C4. Every batch of the sequence is submitted exactly once, in the original order,
  whatever the outcomes; the failures reported are exactly the batches whose execution
  raises, each with its 1-based position (and the number of batches), in order. For the
  batches \<open>B1\<close>, \<open>B2\<close>, \<open>B3\<close> of which \<open>B2\<close> fails, three batches are attempted and one
  failure, at position 2, is reported.
\<close>

theorem Batch_Executor_attempts_all:
  "attempted (snd (Batch_Executor exec bs st)) = bs
   \<and> reported (snd (Batch_Executor exec bs st))
       = map (\<lambda>k. (k, length bs)) (failing 0 (outcomes exec st bs))"
proof -
  obtain st1 evs where l: "batch_loop exec (length bs) 0 bs st = (st1, evs)"
    by (cases "batch_loop exec (length bs) 0 bs st")
  from attempted_batch_loop [OF l] reported_batch_loop [OF l] l
  show ?thesis by (simp add: Batch_Executor_def)
qed

theorem Batch_Executor_attempts_all_witness:
  "attempted (snd (Batch_Executor flaky [''B1'', ''B2'', ''B3''] [])) = [''B1'', ''B2'', ''B3'']
   \<and> reported (snd (Batch_Executor flaky [''B1'', ''B2'', ''B3''] [])) = [(2, 3)]
   \<and> outcomes flaky [] [''B1'', ''B2'', ''B3''] = [None, Some ''syntax error'', None]"
  using Batch_Executor_attempts_all [of flaky "[''B1'', ''B2'', ''B3'']" "[]"]
  by (simp add: flaky_def)

section \<open>Properties of the Schema Deployer\<close>

text \<open>
  Claim C1. The claim: with \<open>overwrite\<close> set, the drop of the target database is issued
  exactly once per target, before any batch of any of its files. The code issues the drop
  inside the loop over the files, once per file: for a target with two files the
  statements reach the server in the order drop, batch of the first file, drop, batch of
  the second file, so the second drop follows a creation batch and undoes it.
\<close>

theorem schema_to_db_drops_per_file:
  "attempted (fst (snd (schema_to_db [''ODBC Driver 17 for SQL Server''] two_files recording
          [''[srv].[db]''] True [])))
   = [''DROP DATABASE IF EXISTS [db];'', ''CREATE TABLE a (i int)\<newline>'',
      ''DROP DATABASE IF EXISTS [db];'', ''CREATE TABLE b (i int)\<newline>'']"
  by (simp add: parse_address_def py_strip_def sql_server_driver_def endswith_def
      suffix_to_prefix two_files_def deploy_file_def drop_statement_def Batch_Splitter_def
      GO_sep_def Batch_Executor_def recording_def)

section \<open>Properties of the empty-directory pruning\<close>

lemma emptied_prefix: "q \<in> emptied p d \<Longrightarrow> prefix p q"
proof (induction p d arbitrary: q rule: emptied.induct)
  case (1 p fs ds)
  from "1.prems" consider
    (child) n d where "(n, d) \<in> set ds" "q \<in> emptied (p @ [n]) d"
    | (self) "q = p"
    by (auto split: if_splits)
  then show ?case
  proof cases
    case child
    with "1.IH" have "prefix (p @ [n]) q" by blast
    then show ?thesis by (meson append_prefixD)
  next
    case self
    then show ?thesis by simp
  qed
qed

lemma emptied_self: "p \<in> emptied p d \<longleftrightarrow> no_files d"
proof (cases d)
  case (Dir fs ds)
  have "p \<notin> emptied (p @ [n]) s" for n s
    using emptied_prefix [of p "p @ [n]" s] by auto
  with Dir show ?thesis by auto
qed

lemma prefix_snoc_same: "prefix (p @ [n]) q \<Longrightarrow> prefix (p @ [m]) q \<Longrightarrow> n = m"
  by (auto simp: prefix_def append_eq_append_conv2 Cons_eq_append_conv append_eq_Cons_conv)

lemma prune_step_fst:
  "fst (prune_step (D, R) (p, subs, files)) =
     (if \<not> py_any files \<and> (\<forall>n\<in>set subs. p @ [n] \<in> D) then insert p D else D)"
  by (auto simp: prune_step_def)

lemma foldl_prune_children:
  assumes IH: "\<And>n d D R. (n, d) \<in> set ds \<Longrightarrow> wf_tree d \<Longrightarrow> \<forall>q\<in>D. \<not> prefix (p @ [n]) q \<Longrightarrow>
      fst (foldl prune_step (D, R) (walk_bottom_up (p @ [n]) d)) = D \<union> emptied (p @ [n]) d"
    and "distinct (map fst ds)" and "\<forall>(n, d)\<in>set ds. wf_tree d"
    and "\<forall>q\<in>D. \<forall>m\<in>fst ` set ds. \<not> prefix (p @ [m]) q"
  shows "fst (foldl prune_step (D, R) (concat (map (\<lambda>(n, d). walk_bottom_up (p @ [n]) d) ds)))
    = D \<union> (\<Union>(n, d)\<in>set ds. emptied (p @ [n]) d)"
  using assms
proof (induction ds arbitrary: D R)
  case Nil
  then show ?case by simp
next
  case (Cons x ds)
  obtain n d where x: "x = (n, d)" by (cases x)
  obtain D1 R1 where s1: "foldl prune_step (D, R) (walk_bottom_up (p @ [n]) d) = (D1, R1)"
    by (cases "foldl prune_step (D, R) (walk_bottom_up (p @ [n]) d)")
  have nopre: "\<forall>q\<in>D. \<not> prefix (p @ [n]) q"
    using Cons.prems(4) x by auto
  have "fst (foldl prune_step (D, R) (walk_bottom_up (p @ [n]) d)) = D \<union> emptied (p @ [n]) d"
    using Cons.prems(1) [of n d D R] Cons.prems(3) nopre x by auto
  with s1 have D1: "D1 = D \<union> emptied (p @ [n]) d" by simp
  have n_fresh: "n \<notin> fst ` set ds" using Cons.prems(2) x by auto
  have d4: "\<forall>q\<in>D1. \<forall>m\<in>fst ` set ds. \<not> prefix (p @ [m]) q"
  proof (intro ballI notI)
    fix q m assume q: "q \<in> D1" and m: "m \<in> fst ` set ds" and pm: "prefix (p @ [m]) q"
    from q D1 consider "q \<in> D" | "q \<in> emptied (p @ [n]) d" by auto
    then show False
    proof cases
      case 1
      with Cons.prems(4) m pm show False by auto
    next
      case 2
      then have "prefix (p @ [n]) q" by (rule emptied_prefix)
      from this pm have "n = m" by (rule prefix_snoc_same)
      with m n_fresh show False by simp
    qed
  qed
  have rest: "fst (foldl prune_step (D1, R1) (concat (map (\<lambda>(n, d). walk_bottom_up (p @ [n]) d) ds)))
    = D1 \<union> (\<Union>(n, d)\<in>set ds. emptied (p @ [n]) d)"
  proof (rule Cons.IH)
    show "distinct (map fst ds)" using Cons.prems(2) by simp
    show "\<forall>(n, d)\<in>set ds. wf_tree d" using Cons.prems(3) by simp
    show "\<forall>q\<in>D1. \<forall>m\<in>fst ` set ds. \<not> prefix (p @ [m]) q" by (rule d4)
    show "fst (foldl prune_step (D', R') (walk_bottom_up (p @ [n']) d')) = D' \<union> emptied (p @ [n']) d'"
      if "(n', d') \<in> set ds" "wf_tree d'" "\<forall>q\<in>D'. \<not> prefix (p @ [n']) q" for n' d' D' R'
      using that Cons.prems(1) [of n' d' D' R'] by simp
  qed
  show ?case using s1 rest D1 x by (simp add: Un_assoc)
qed

lemma no_files_children:
  assumes "distinct (map fst ds)"
    and "\<forall>q\<in>D. \<not> prefix p q"
  shows "(\<forall>n\<in>set (map fst ds). p @ [n] \<in> D \<union> (\<Union>(n, d)\<in>set ds. emptied (p @ [n]) d))
    \<longleftrightarrow> (\<forall>(n, d)\<in>set ds. no_files d)"
proof -
  have key: "p @ [n] \<in> D \<union> (\<Union>(n, d)\<in>set ds. emptied (p @ [n]) d) \<longleftrightarrow> no_files d"
    if nd: "(n, d) \<in> set ds" for n d
  proof
    assume "p @ [n] \<in> D \<union> (\<Union>(n, d)\<in>set ds. emptied (p @ [n]) d)"
    moreover have "p @ [n] \<notin> D" using assms(2) by auto
    ultimately obtain m e where me: "(m, e) \<in> set ds" "p @ [n] \<in> emptied (p @ [m]) e" by auto
    then have "prefix (p @ [m]) (p @ [n])" using emptied_prefix by blast
    then have "m = n" by simp
    with me nd assms(1) have "e = d" by (meson eq_key_imp_eq_value)
    with me \<open>m = n\<close> show "no_files d" using emptied_self by blast
  next
    assume "no_files d"
    then have "p @ [n] \<in> emptied (p @ [n]) d" using emptied_self by blast
    with nd show "p @ [n] \<in> D \<union> (\<Union>(n, d)\<in>set ds. emptied (p @ [n]) d)" by auto
  qed
  show ?thesis
  proof
    assume l: "\<forall>n\<in>set (map fst ds). p @ [n] \<in> D \<union> (\<Union>(n, d)\<in>set ds. emptied (p @ [n]) d)"
    show "\<forall>(n, d)\<in>set ds. no_files d"
    proof (clarify)
      fix n d assume nd: "(n, d) \<in> set ds"
      then have "n \<in> set (map fst ds)" by force
      with l key [OF nd] show "no_files d" by blast
    qed
  next
    assume r: "\<forall>(n, d)\<in>set ds. no_files d"
    show "\<forall>n\<in>set (map fst ds). p @ [n] \<in> D \<union> (\<Union>(n, d)\<in>set ds. emptied (p @ [n]) d)"
    proof
      fix n assume "n \<in> set (map fst ds)"
      then obtain d where nd: "(n, d) \<in> set ds" by auto
      with r have "no_files d" by auto
      with key [OF nd] show "p @ [n] \<in> D \<union> (\<Union>(n, d)\<in>set ds. emptied (p @ [n]) d)" by simp
    qed
  qed
qed

lemma py_any_names: "\<forall>f\<in>set fs. f \<noteq> [] \<Longrightarrow> py_any fs \<longleftrightarrow> fs \<noteq> []"
  by (cases fs) (auto simp: py_any_def)

lemma foldl_prune_walk:
  "wf_tree d \<Longrightarrow> \<forall>q\<in>D. \<not> prefix p q \<Longrightarrow>
   fst (foldl prune_step (D, R) (walk_bottom_up p d)) = D \<union> emptied p d"
proof (induction p d arbitrary: D R rule: walk_bottom_up.induct)
  case (1 p fs ds)
  let ?kids = "concat (map (\<lambda>(n, d). walk_bottom_up (p @ [n]) d) ds)"
  let ?E = "\<Union>(n, d)\<in>set ds. emptied (p @ [n]) d"
  obtain D1 R1 where s1: "foldl prune_step (D, R) ?kids = (D1, R1)"
    by (cases "foldl prune_step (D, R) ?kids")
  have dist: "distinct (map fst ds)" and wfk: "\<forall>(n, d)\<in>set ds. wf_tree d"
    and names: "\<forall>f\<in>set (map fst fs). f \<noteq> []"
    using "1.prems"(1) by auto
  have pre: "\<forall>q\<in>D. \<forall>m\<in>fst ` set ds. \<not> prefix (p @ [m]) q"
    using "1.prems"(2) by (meson append_prefixD)
  have "fst (foldl prune_step (D, R) ?kids) = D \<union> ?E"
  proof (rule foldl_prune_children [OF _ dist wfk pre])
    show "fst (foldl prune_step (D', R') (walk_bottom_up (p @ [n]) d')) = D' \<union> emptied (p @ [n]) d'"
      if "(n, d') \<in> set ds" "wf_tree d'" "\<forall>q\<in>D'. \<not> prefix (p @ [n]) q" for n d' D' R'
      using "1.IH" [OF that(1) refl that(2) that(3)] .
  qed
  with s1 have D1: "D1 = D \<union> ?E" by simp
  have cond: "(\<forall>n\<in>set (map fst ds). p @ [n] \<in> D1) \<longleftrightarrow> (\<forall>(n, d)\<in>set ds. no_files d)"
    unfolding D1 using dist "1.prems"(2) by (rule no_files_children)
  have any: "py_any (map fst fs) \<longleftrightarrow> fs \<noteq> []"
    using py_any_names [OF names] by simp
  have "fst (foldl prune_step (D, R) (walk_bottom_up p (Dir fs ds)))
      = fst (prune_step (D1, R1) (p, map fst ds, map fst fs))"
    using s1 by simp
  also have "\<dots> = (if fs = [] \<and> (\<forall>(n, d)\<in>set ds. no_files d) then insert p D1 else D1)"
    unfolding prune_step_fst using cond any by simp
  also have "\<dots> = D \<union> emptied p (Dir fs ds)"
    using D1 by auto
  finally show ?case .
qed

lemma prune_step_rmdirs:
  "set R = D \<Longrightarrow> set (snd (prune_step (D, R) t)) = fst (prune_step (D, R) t)"
  by (cases t) (auto simp: prune_step_def Let_def)

lemma foldl_prune_rmdirs:
  "set R = D \<Longrightarrow>
   set (snd (foldl prune_step (D, R) ts)) = fst (foldl prune_step (D, R) ts)"
proof (induction ts arbitrary: D R)
  case Nil
  then show ?case by simp
next
  case (Cons t ts)
  obtain D1 R1 where s1: "prune_step (D, R) t = (D1, R1)" by (cases "prune_step (D, R) t")
  with prune_step_rmdirs [OF Cons.prems, of t] have "set R1 = D1" by simp
  from Cons.IH [OF this] s1 show ?case by simp
qed

lemma rmdirs_deleted:
  "set (snd (prune_empty_dirs base_dir tree)) = fst (prune_empty_dirs base_dir tree)"
  unfolding prune_empty_dirs_def by (rule foldl_prune_rmdirs) simp

lemma deleted_emptied:
  "wf_tree tree \<Longrightarrow> fst (prune_empty_dirs base_dir tree) = emptied base_dir tree"
  unfolding prune_empty_dirs_def using foldl_prune_walk [of tree "{}" base_dir "[]"] by simp

lemma wf_tree_child:
  "wf_tree d \<Longrightarrow> map_of (dsubs d) n = Some s \<Longrightarrow> wf_tree s"
  by (cases d) (auto dest: map_of_SomeD)

lemma wf_tree_subdir_at: "wf_tree d \<Longrightarrow> subdir_at d q = Some d' \<Longrightarrow> wf_tree d'"
proof (induction q arbitrary: d)
  case Nil
  then show ?case by simp
next
  case (Cons n q)
  then obtain s where s: "map_of (dsubs d) n = Some s" "subdir_at s q = Some d'"
    by (auto split: option.splits)
  from wf_tree_child [OF Cons.prems(1) s(1)] have "wf_tree s" .
  from Cons.IH [OF this s(2)] show ?case .
qed

lemma subdir_at_snoc:
  "subdir_at d (q @ [n]) =
     (case subdir_at d q of None \<Rightarrow> None | Some d' \<Rightarrow> map_of (dsubs d') n)"
  by (induction q arbitrary: d) (auto split: option.splits)

lemma emptied_at:
  "wf_tree d \<Longrightarrow> subdir_at d q = Some d' \<Longrightarrow> p @ q \<in> emptied p d \<longleftrightarrow> no_files d'"
proof (induction q arbitrary: d p)
  case Nil
  then show ?case by (simp add: emptied_self)
next
  case (Cons n q)
  obtain fs ds where d: "d = Dir fs ds" by (cases d)
  from Cons.prems(2) obtain s where s: "map_of ds n = Some s" "subdir_at s q = Some d'"
    using d by (auto split: option.splits)
  have dist: "distinct (map fst ds)" using Cons.prems(1) d by simp
  have wfs: "wf_tree s" using wf_tree_child [OF Cons.prems(1)] s(1) d by simp
  have mem: "(n, s) \<in> set ds" using s(1) by (rule map_of_SomeD)
  have "p @ n # q \<in> emptied p d \<longleftrightarrow> (p @ [n]) @ q \<in> emptied (p @ [n]) s"
  proof
    assume "p @ n # q \<in> emptied p d"
    then consider (child) m e where "(m, e) \<in> set ds" "p @ n # q \<in> emptied (p @ [m]) e"
      | (self) "p @ n # q = p"
      using d by (auto split: if_splits)
    then show "(p @ [n]) @ q \<in> emptied (p @ [n]) s"
    proof cases
      case child
      from child(2) have "prefix (p @ [m]) (p @ n # q)" by (rule emptied_prefix)
      then have "m = n" by simp
      with child(1) mem dist have "e = s" by (meson eq_key_imp_eq_value)
      with child(2) \<open>m = n\<close> show ?thesis by simp
    next
      case self
      then show ?thesis by simp
    qed
  next
    assume "(p @ [n]) @ q \<in> emptied (p @ [n]) s"
    with mem show "p @ n # q \<in> emptied p d" using d by auto
  qed
  also have "\<dots> \<longleftrightarrow> no_files d'" using Cons.IH [OF wfs s(2)] .
  finally show ?case .
qed

text \<open>
  Claim C7. In a well-formed tree, for every directory of the tree (reached from the base
  directory along \<open>q\<close>): the pruning removes it if and only if it contains no files and
  every one of its subdirectories is removed in the same pass; the directories removed are
  those of the set \<open>deleted\<close>. The walk is bottom-up. For the tree with \<open>d1/d2/\<close> empty
  and \<open>d1/file.txt\<close>, \<open>d2\<close> is removed and \<open>d1\<close> is kept.
\<close>

theorem prune_removes_iff:
  assumes "wf_tree tree" and "subdir_at tree q = Some d"
  shows "(base_dir @ q \<in> set (snd (prune_empty_dirs base_dir tree)) \<longleftrightarrow>
           dfiles d = [] \<and>
           (\<forall>n\<in>set (map fst (dsubs d)).
               base_dir @ q @ [n] \<in> set (snd (prune_empty_dirs base_dir tree))))
    \<and> set (snd (prune_empty_dirs base_dir tree)) = fst (prune_empty_dirs base_dir tree)"
proof -
  let ?del = "fst (prune_empty_dirs base_dir tree)"
  have del: "?del = emptied base_dir tree" using assms(1) by (rule deleted_emptied)
  obtain fs ds where d: "d = Dir fs ds" by (cases d)
  have wfd: "wf_tree d" using assms by (rule wf_tree_subdir_at)
  then have dist: "distinct (map fst ds)" using d by simp
  have self: "base_dir @ q \<in> ?del \<longleftrightarrow> no_files d"
    unfolding del using assms by (rule emptied_at)
  have kid: "base_dir @ q @ [n] \<in> ?del \<longleftrightarrow> no_files s" if "(n, s) \<in> set ds" for n s
  proof -
    from that dist have "map_of ds n = Some s" by simp
    then have "subdir_at tree (q @ [n]) = Some s"
      using assms(2) d by (simp add: subdir_at_snoc)
    from emptied_at [OF assms(1) this, of base_dir] show ?thesis
      unfolding del by simp
  qed
  have "(\<forall>n\<in>set (map fst ds). base_dir @ q @ [n] \<in> ?del) \<longleftrightarrow> (\<forall>(n, s)\<in>set ds. no_files s)"
  proof
    assume l: "\<forall>n\<in>set (map fst ds). base_dir @ q @ [n] \<in> ?del"
    show "\<forall>(n, s)\<in>set ds. no_files s"
    proof clarify
      fix n s assume ns: "(n, s) \<in> set ds"
      then have "n \<in> set (map fst ds)" by force
      with l have "base_dir @ q @ [n] \<in> ?del" by blast
      with kid [OF ns] show "no_files s" by simp
    qed
  next
    assume r: "\<forall>(n, s)\<in>set ds. no_files s"
    show "\<forall>n\<in>set (map fst ds). base_dir @ q @ [n] \<in> ?del"
    proof
      fix n assume "n \<in> set (map fst ds)"
      then obtain s where ns: "(n, s) \<in> set ds" by auto
      with r have "no_files s" by auto
      with kid [OF ns] show "base_dir @ q @ [n] \<in> ?del" by simp
    qed
  qed
  with self d have "base_dir @ q \<in> ?del \<longleftrightarrow>
      dfiles d = [] \<and> (\<forall>n\<in>set (map fst (dsubs d)). base_dir @ q @ [n] \<in> ?del)"
    by simp
  then show ?thesis by (simp only: rmdirs_deleted simp_thms)
qed

theorem prune_removes_iff_witness:
  "wf_tree example_tree
   \<and> subdir_at example_tree [''d1''] = Some (Dir [(''file.txt'', ''x'')] [(''d2'', Dir [] [])])
   \<and> [''base'', ''d1'', ''d2''] \<in> set (snd (prune_empty_dirs [''base''] example_tree))
   \<and> [''base'', ''d1''] \<notin> set (snd (prune_empty_dirs [''base''] example_tree))
   \<and> snd (prune_empty_dirs [''base''] example_tree) = [[''base'', ''d1'', ''d2'']]"
proof -
  have w: "wf_tree example_tree" by (simp add: example_tree_def)
  have s: "subdir_at example_tree [''d1''] = Some (Dir [(''file.txt'', ''x'')] [(''d2'', Dir [] [])])"
    by (simp add: example_tree_def)
  have e: "snd (prune_empty_dirs [''base''] example_tree) = [[''base'', ''d1'', ''d2'']]"
    by (simp add: prune_empty_dirs_def example_tree_def prune_step_def py_any_def)
  have m1: "[''base'', ''d1'', ''d2''] \<in> set (snd (prune_empty_dirs [''base''] example_tree))"
    unfolding e by simp
  from prune_removes_iff [OF w s, of "[''base'']"]
  have "[''base''] @ [''d1''] \<in> set (snd (prune_empty_dirs [''base''] example_tree)) \<longleftrightarrow>
      dfiles (Dir [(''file.txt'', ''x'')] [(''d2'', Dir [] [])]) = [] \<and>
      (\<forall>n\<in>set (map fst (dsubs (Dir [(''file.txt'', ''x'')] [(''d2'', Dir [] [])]))).
          [''base''] @ [''d1''] @ [n] \<in> set (snd (prune_empty_dirs [''base''] example_tree)))"
    by (rule conjunct1)
  then have m2: "[''base'', ''d1''] \<notin> set (snd (prune_empty_dirs [''base''] example_tree))"
    by simp
  from w s m1 m2 e show ?thesis by blast
qed

text \<open>
  Claim C10. The walk starts at \<open>base_dir\<close> itself: if \<open>base_dir\<close> contains no files and
  all of its subdirectories are removed in the pass, then \<open>base_dir\<close> itself is removed, by
  the last call of \<open>os.rmdir\<close>.
\<close>

theorem prune_removes_base_dir:
  assumes "dfiles tree = []"
    and "\<forall>n\<in>set (map fst (dsubs tree)).
           base_dir @ [n] \<in> set (snd (prune_empty_dirs base_dir tree))"
  shows "base_dir \<in> set (snd (prune_empty_dirs base_dir tree))
    \<and> snd (prune_empty_dirs base_dir tree) \<noteq> []
    \<and> last (snd (prune_empty_dirs base_dir tree)) = base_dir"
proof -
  obtain fs ds where t: "tree = Dir fs ds" by (cases tree)
  with assms(1) have fs: "fs = []" by simp
  let ?kids = "concat (map (\<lambda>(n, d). walk_bottom_up (base_dir @ [n]) d) ds)"
  obtain D1 R1 where s1: "foldl prune_step ({}, []) ?kids = (D1, R1)"
    by (cases "foldl prune_step ({}, []) ?kids")
  have R1: "set R1 = D1"
    using foldl_prune_rmdirs [of "[]" "{}" ?kids] s1 by simp
  have res: "prune_empty_dirs base_dir tree = prune_step (D1, R1) (base_dir, map fst ds, [])"
    using s1 t fs by (simp add: prune_empty_dirs_def)
  have all: "\<forall>n\<in>set (map fst ds). base_dir @ [n] \<in> D1"
  proof
    fix n assume n: "n \<in> set (map fst ds)"
    with assms(2) t have "base_dir @ [n] \<in> set (snd (prune_empty_dirs base_dir tree))"
      by auto
    then have "base_dir @ [n] \<in> set (snd (prune_step (D1, R1) (base_dir, map fst ds, [])))"
      unfolding res .
    then show "base_dir @ [n] \<in> D1"
      using R1 by (auto simp: prune_step_def py_any_def split: if_splits)
  qed
  then have "prune_step (D1, R1) (base_dir, map fst ds, []) = (insert base_dir D1, R1 @ [base_dir])"
    by (auto simp: prune_step_def py_any_def)
  with res show ?thesis by simp
qed

theorem prune_removes_base_dir_witness:
  "dfiles empty_tree = []
   \<and> map fst (dsubs empty_tree) = [''a'', ''c'']
   \<and> [''base'', ''a''] \<in> set (snd (prune_empty_dirs [''base''] empty_tree))
   \<and> [''base'', ''c''] \<in> set (snd (prune_empty_dirs [''base''] empty_tree))
   \<and> last (snd (prune_empty_dirs [''base''] empty_tree)) = [''base'']
   \<and> snd (prune_empty_dirs [''base''] empty_tree)
       = [[''base'', ''a'', ''b''], [''base'', ''a''], [''base'', ''c''], [''base'']]"
proof -
  have f: "dfiles empty_tree = []" by (simp add: empty_tree_def)
  have e: "snd (prune_empty_dirs [''base''] empty_tree)
       = [[''base'', ''a'', ''b''], [''base'', ''a''], [''base'', ''c''], [''base'']]"
    by (simp add: prune_empty_dirs_def empty_tree_def prune_step_def py_any_def)
  have k: "\<forall>n\<in>set (map fst (dsubs empty_tree)).
           [''base''] @ [n] \<in> set (snd (prune_empty_dirs [''base''] empty_tree))"
    unfolding e by (simp add: empty_tree_def)
  show ?thesis
  proof -
    have m: "map fst (dsubs empty_tree) = [''a'', ''c'']" by (simp add: empty_tree_def)
    have a: "[''base'', ''a''] \<in> set (snd (prune_empty_dirs [''base''] empty_tree))"
      and c: "[''base'', ''c''] \<in> set (snd (prune_empty_dirs [''base''] empty_tree))"
      unfolding e by simp_all
    from prune_removes_base_dir [OF f k]
    have l: "last (snd (prune_empty_dirs [''base''] empty_tree)) = [''base'']" by blast
    from f m a c l e show ?thesis by blast
  qed
qed

section \<open>Properties of the file loop of cleanup\<close>

lemma cleanup_loop_append:
  "cleanup_loop R S sf ow n i pre st = (Completed, st1, evs1) \<Longrightarrow>
   cleanup_loop R S sf ow n i (pre @ post) st =
     (case cleanup_loop R S sf ow n (i + length pre) post st1 of
        (outcome, st2, evs2) \<Rightarrow> (outcome, st2, evs1 @ evs2))"
proof (induction pre arbitrary: i st)
  case Nil
  then show ?case by (auto split: prod.splits)
next
  case (Cons f pre)
  from Cons.prems obtain body st' where
    r: "open_read (fst st) f = Inr body"
    and c: "clean_file R S sf ow f body st = (None, st')"
    and l: "cleanup_loop R S sf ow n (Suc i) pre st' = (Completed, st1, evs1)"
    by (auto split: sum.splits prod.splits option.splits)
  from Cons.IH [OF l] r c show ?case by simp
qed

text \<open>
  Claim C6. If the files before \<open>f\<close> are cleaned up and reading \<open>f\<close> raises, then the
  whole command returns at once, whatever files follow \<open>f\<close> in the list: the error is
  reported, the state of the file system is the one in which the read failed, so neither
  the contents nor the name of any later file is modified, and no directory is removed.
  The Batch Executor, in contrast, goes on after a failure (claim C4).
\<close>

theorem cleanup_read_error_aborts:
  assumes "cleanup_loop R S sf ow (length (pre @ f # post)) 0 pre st = (Completed, st1, evs1)"
    and "open_read (fst st1) f = Inl exc"
  shows "cleanup (pre @ f # post) R S sf prune ow base_dir scan st
    = (Returned, st1,
       Print_cleaning_up (length (pre @ f # post)) # evs1
         @ [Print_got_error (length pre) (length (pre @ f # post)) f, Print_error exc],
       [])"
proof -
  have "cleanup_loop R S sf ow (length (pre @ f # post)) 0 (pre @ f # post) st
    = (Returned, st1,
       evs1 @ [Print_got_error (length pre) (length (pre @ f # post)) f, Print_error exc])"
    using cleanup_loop_append [OF assms(1), of "f # post"] assms(2) by simp
  then show ?thesis by (simp add: cleanup_def)
qed

theorem cleanup_read_error_aborts_witness:
  "cleanup_loop id [(''x'', ''y'')] True False 3 0 [''a.sql''] three_files
     = (Completed, ((fst three_files)(''a.sql'' \<mapsto> Inr ''SELECT y''), {}), [])
   \<and> open_read ((fst three_files)(''a.sql'' \<mapsto> Inr ''SELECT y'')) ''b.sql'' = Inl PermissionError
   \<and> cleanup [''a.sql'', ''b.sql'', ''c.sql''] id [(''x'', ''y'')] True True False [''base'']
         (\<lambda>st. Dir [] []) three_files
     = (Returned, ((fst three_files)(''a.sql'' \<mapsto> Inr ''SELECT y''), {}),
        [Print_cleaning_up 3, Print_got_error 1 3 ''b.sql'', Print_error PermissionError], [])
   \<and> ((fst three_files)(''a.sql'' \<mapsto> Inr ''SELECT y'')) ''c.sql'' = Some (Inr ''SELECT x'')"
proof -
  have h1: "cleanup_loop id [(''x'', ''y'')] True False (length ([''a.sql''] @ ''b.sql'' # [''c.sql''])) 0
      [''a.sql''] three_files
     = (Completed, ((fst three_files)(''a.sql'' \<mapsto> Inr ''SELECT y''), {}), [])"
    by (simp add: three_files_def open_read_def clean_file_def)
  have h2: "open_read (fst ((fst three_files)(''a.sql'' \<mapsto> Inr ''SELECT y''), {} :: string set)) ''b.sql''
      = Inl PermissionError"
    by (simp add: three_files_def open_read_def)
  have c: "((fst three_files)(''a.sql'' \<mapsto> Inr ''SELECT y'')) ''c.sql'' = Some (Inr ''SELECT x'')"
    by (simp add: three_files_def)
  have w1: "cleanup_loop id [(''x'', ''y'')] True False 3 0 [''a.sql''] three_files
     = (Completed, ((fst three_files)(''a.sql'' \<mapsto> Inr ''SELECT y''), {}), [])"
    using h1 by (simp add: eval_nat_numeral)
  have w2: "open_read ((fst three_files)(''a.sql'' \<mapsto> Inr ''SELECT y'')) ''b.sql'' = Inl PermissionError"
    using h2 by simp
  have k: "cleanup [''a.sql'', ''b.sql'', ''c.sql''] id [(''x'', ''y'')] True True False [''base'']
         (\<lambda>st. Dir [] []) three_files
     = (Returned, ((fst three_files)(''a.sql'' \<mapsto> Inr ''SELECT y''), {}),
        [Print_cleaning_up 3, Print_got_error 1 3 ''b.sql'', Print_error PermissionError], [])"
    using cleanup_read_error_aborts [OF h1 h2, of True "[''base'']" "\<lambda>st. Dir [] []"]
    by (simp add: eval_nat_numeral)
  from w1 w2 k c show ?thesis by blast
qed

section \<open>Properties of the deletion step of from_db\<close>

lemma map_of_filter_neq:
  "map_of (filter (\<lambda>(n, c). n \<noteq> f) fs) g = (if g = f then None else map_of fs g)"
  by (induction fs) auto

lemma map_of_map_entry:
  "map_of (map (\<lambda>(k, s). if k = n then (k, h s) else (k, s)) ds) k'
     = (if k' = n then map_option h (map_of ds n) else map_of ds k')"
  by (induction ds) auto

lemma file_at_os_remove:
  "file_at (os_remove p T) q = (if q = p then None else file_at T q)"
proof (induction p T arbitrary: q rule: os_remove.induct)
  case (1 d)
  then show ?case by simp
next
  case (2 f fs ds)
  show ?case
  proof (cases q rule: remdups_adj.cases)
    case 1
    then show ?thesis by simp
  next
    case (2 g)
    then show ?thesis by (simp add: map_of_filter_neq)
  next
    case (3 n m p)
    then show ?thesis by simp
  qed
next
  case (3 n m p fs ds)
  show ?case
  proof (cases q rule: remdups_adj.cases)
    case 1
    then show ?thesis by simp
  next
    case (2 g)
    then show ?thesis by simp
  next
    case (3 n' m' p')
    show ?thesis
    proof (cases "n' = n")
      case False
      with 3 show ?thesis by (simp add: map_of_map_entry)
    next
      case True
      show ?thesis
      proof (cases "map_of ds n")
        case None
        with 3 True show ?thesis by (simp add: map_of_map_entry)
      next
        case (Some s)
        then have "(n, s) \<in> set ds" by (rule map_of_SomeD)
        from "3.IH" [OF this refl] have "file_at (os_remove (m # p) s) (m' # p')
          = (if m' # p' = m # p then None else file_at s (m' # p'))" by simp
        with 3 True Some show ?thesis by (simp add: map_of_map_entry)
      qed
    qed
  qed
qed

lemma file_at_remove_sql_files:
  "file_at (remove_sql_files root files fs) q
     = (if \<exists>f\<in>set files. endswith f ''.sql'' \<and> q = root @ [f] then None else file_at fs q)"
  unfolding remove_sql_files_def
  by (induction files arbitrary: fs) (auto simp: file_at_os_remove)

lemma file_at_foldl_remove:
  "file_at (foldl (\<lambda>fs (root, subdirs, files). remove_sql_files root files fs) fs ts) q
     = (if \<exists>(root, subdirs, files)\<in>set ts. \<exists>f\<in>set files. endswith f ''.sql'' \<and> q = root @ [f]
        then None else file_at fs q)"
  by (induction ts arbitrary: fs) (auto simp: file_at_remove_sql_files)

lemma walk_top_down_prefix:
  "(root, subdirs, files) \<in> set (walk_top_down p d) \<Longrightarrow> prefix p root"
proof (induction p d arbitrary: root subdirs files rule: walk_top_down.induct)
  case (1 p fs ds)
  from "1.prems" consider "root = p"
    | n d where "(n, d) \<in> set ds" "(root, subdirs, files) \<in> set (walk_top_down (p @ [n]) d)"
    by auto
  then show ?case
  proof cases
    case 1
    then show ?thesis by simp
  next
    case 2
    from "1.IH" [OF 2(1) refl 2(2)] have "prefix (p @ [n]) root" .
    then show ?thesis by (rule append_prefixD)
  qed
qed

lemma walk_top_down_subdir:
  "subdir_at d r = Some d' \<Longrightarrow>
   (p @ r, map fst (dsubs d'), map fst (dfiles d')) \<in> set (walk_top_down p d)"
proof (induction r arbitrary: d p)
  case Nil
  then show ?case by (cases d') auto
next
  case (Cons n r)
  obtain fs ds where d: "d = Dir fs ds" by (cases d)
  from Cons.prems d obtain s where s: "map_of ds n = Some s" "subdir_at s r = Some d'"
    by (auto split: option.splits)
  from s(1) have mem: "(n, s) \<in> set ds" by (rule map_of_SomeD)
  from Cons.IH [OF s(2), of "p @ [n]"]
  have "(p @ n # r, map fst (dsubs d'), map fst (dfiles d')) \<in> set (walk_top_down (p @ [n]) s)"
    by simp
  with mem d show ?case by auto
qed

lemma subdir_at_append:
  "subdir_at d (q @ r) = (case subdir_at d q of None \<Rightarrow> None | Some d' \<Rightarrow> subdir_at d' r)"
  by (induction q arbitrary: d) (auto split: option.splits)

lemma file_at_snoc:
  "file_at d (q @ [f]) = (case subdir_at d q of None \<Rightarrow> None | Some d' \<Rightarrow> map_of (dfiles d') f)"
proof (induction q arbitrary: d)
  case Nil
  then show ?case by simp
next
  case (Cons n q)
  then show ?case by (cases "q @ [f]") (auto split: option.splits)
qed

lemma strict_prefix_snoc_decomp:
  "strict_prefix p q \<Longrightarrow> \<exists>r f. q = p @ r @ [f]"
proof -
  assume "strict_prefix p q"
  then obtain z zs where "q = p @ z # zs" by (auto simp: strict_prefix_def prefix_def) (metis list.exhaust append_Nil2)
  moreover obtain r f where "z # zs = r @ [f]" by (metis list.distinct(1) rev_exhaust)
  ultimately show ?thesis by auto
qed

lemma file_at_purge_schema:
  "file_at (purge_schema sbd fs) q
     = (if strict_prefix sbd q \<and> endswith (last q) ''.sql'' then None else file_at fs q)"
proof (cases "subdir_at fs sbd")
  case None
  have "file_at fs q = None" if "strict_prefix sbd q"
  proof -
    from that obtain r f where q: "q = sbd @ r @ [f]" using strict_prefix_snoc_decomp by blast
    have "subdir_at fs (sbd @ r) = None" using None by (simp add: subdir_at_append)
    then show ?thesis using q file_at_snoc [of fs "sbd @ r" f] by simp
  qed
  with None show ?thesis by (simp add: purge_schema_def)
next
  case (Some d)
  let ?hit = "\<exists>(root, subdirs, files)\<in>set (walk_top_down sbd d).
      \<exists>f\<in>set files. endswith f ''.sql'' \<and> q = root @ [f]"
  have res: "file_at (purge_schema sbd fs) q = (if ?hit then None else file_at fs q)"
    using Some by (simp add: purge_schema_def file_at_foldl_remove)
  show ?thesis
  proof (cases ?hit)
    case True
    then obtain root subdirs files f where
      w: "(root, subdirs, files) \<in> set (walk_top_down sbd d)"
      and f: "f \<in> set files" "endswith f ''.sql''" "q = root @ [f]"
      by auto
    from w have "prefix sbd root" by (rule walk_top_down_prefix)
    then have "strict_prefix sbd q" using f(3) by (auto simp: strict_prefix_def prefix_def)
    with f True res show ?thesis by simp
  next
    case False
    have "file_at fs q = None" if sp: "strict_prefix sbd q" and e: "endswith (last q) ''.sql''"
    proof (rule ccontr)
      assume "file_at fs q \<noteq> None"
      then obtain c where c: "file_at fs q = Some c" by auto
      from sp obtain r f where q: "q = sbd @ r @ [f]" using strict_prefix_snoc_decomp by blast
      from c q file_at_snoc [of fs "sbd @ r" f] obtain d' where
        d': "subdir_at fs (sbd @ r) = Some d'" "map_of (dfiles d') f = Some c"
        by (auto split: option.splits)
      from d'(1) Some have "subdir_at d r = Some d'" by (simp add: subdir_at_append)
      then have "(sbd @ r, map fst (dsubs d'), map fst (dfiles d')) \<in> set (walk_top_down sbd d)"
        by (rule walk_top_down_subdir)
      moreover from d'(2) have "f \<in> set (map fst (dfiles d'))"
        by (metis map_of_SomeD image_eqI fst_conv set_map)
      moreover have "endswith f ''.sql''" using e q by simp
      ultimately have ?hit using q by force
      with False show False by simp
    qed
    with False res show ?thesis by auto
  qed
qed

text \<open>
  Claim C5. With \<open>overwrite\<close>, the deletion step comes before the staged files are moved.
  After it, no file whose name ends in \<open>.sql\<close> is left under the schema directory of the
  target, and every other file of the tree has the text it had: the files of the
  destination whose names do not end in \<open>.sql\<close>, and every file of the staging area.
\<close>

theorem from_db_overwrite_deletes_stale_sql:
  "file_at (purge_schema [''schema'', source_server, source_db] fs) q
     = (if strict_prefix [''schema'', source_server, source_db] q \<and> endswith (last q) ''.sql''
        then None else file_at fs q)
   \<and> file_at (purge_schema [''schema'', source_server, source_db] fs) (''.stg'' # r)
     = file_at fs (''.stg'' # r)
   \<and> from_db_files True source_server source_db slug fs
     = (let fs2 = move_staged [''.stg'', slug] (purge_schema [''schema'', source_server, source_db] fs)
        in if subdir_at fs2 [''.stg'', slug] = None then fs2 else rmtree [''.stg'', slug] fs2)"
  by (simp add: file_at_purge_schema from_db_files_def Let_def)

theorem from_db_overwrite_deletes_stale_sql_witness:
  "file_at (purge_schema [''schema'', ''srv'', ''db''] staged_tree)
      [''schema'', ''srv'', ''db'', ''old.sql''] = None
   \<and> file_at (purge_schema [''schema'', ''srv'', ''db''] staged_tree)
      [''schema'', ''srv'', ''db'', ''dbo'', ''t.sql''] = None
   \<and> file_at (purge_schema [''schema'', ''srv'', ''db''] staged_tree)
      [''schema'', ''srv'', ''db'', ''notes.txt''] = Some ''keep''
   \<and> file_at (purge_schema [''schema'', ''srv'', ''db''] staged_tree)
      [''.stg'', ''srv-db'', ''schema'', ''srv'', ''db'', ''new.sql''] = Some ''fresh''
   \<and> from_db_files True ''srv'' ''db'' ''srv-db'' staged_tree
     = Dir []
        [(''schema'', Dir [] [(''srv'', Dir [] [(''db'',
            Dir [(''notes.txt'', ''keep''), (''new.sql'', ''fresh'')]
                [(''dbo'', Dir [(''t.sql'', ''v2'')] [])])])]),
         (''.stg'', Dir [] [])]"
proof -
  note T = from_db_overwrite_deletes_stale_sql [of "''srv''" "''db''" staged_tree]
  have a: "file_at (purge_schema [''schema'', ''srv'', ''db''] staged_tree)
      [''schema'', ''srv'', ''db'', ''old.sql''] = None"
    using T [of "[''schema'', ''srv'', ''db'', ''old.sql'']"]
    by (simp add: endswith_def suffix_to_prefix)
  have b: "file_at (purge_schema [''schema'', ''srv'', ''db''] staged_tree)
      [''schema'', ''srv'', ''db'', ''dbo'', ''t.sql''] = None"
    using T [of "[''schema'', ''srv'', ''db'', ''dbo'', ''t.sql'']"]
    by (simp add: endswith_def suffix_to_prefix)
  have c: "file_at (purge_schema [''schema'', ''srv'', ''db''] staged_tree)
      [''schema'', ''srv'', ''db'', ''notes.txt''] = Some ''keep''"
    using T [of "[''schema'', ''srv'', ''db'', ''notes.txt'']"]
    by (simp add: endswith_def suffix_to_prefix staged_tree_def)
  have d: "file_at (purge_schema [''schema'', ''srv'', ''db''] staged_tree)
      [''.stg'', ''srv-db'', ''schema'', ''srv'', ''db'', ''new.sql''] = Some ''fresh''"
    using T [of _ "[''srv-db'', ''schema'', ''srv'', ''db'', ''new.sql'']"]
    by (simp add: staged_tree_def)
  have e: "from_db_files True ''srv'' ''db'' ''srv-db'' staged_tree
     = Dir []
        [(''schema'', Dir [] [(''srv'', Dir [] [(''db'',
            Dir [(''notes.txt'', ''keep''), (''new.sql'', ''fresh'')]
                [(''dbo'', Dir [(''t.sql'', ''v2'')] [])])])]),
         (''.stg'', Dir [] [])]"
    by (simp add: from_db_files_def purge_schema_def move_staged_def remove_sql_files_def
        shutil_move_def staged_tree_def endswith_def suffix_to_prefix)
  from a b c d e show ?thesis by blast
qed

section \<open>Properties of slugify\<close>

lemma not_space_45 [simp]: "\<not> is_space U 45"
  by (simp add: is_space_def ascii_space_def)

lemma hyphen_or_space_45 [simp]: "hyphen_or_space U 45"
  by (simp add: hyphen_or_space_def)

lemma collapse_set:
  "c \<in> set (collapse U s) \<Longrightarrow> c = 45 \<or> c \<in> set s \<and> \<not> hyphen_or_space U c"
proof (induction U s rule: collapse.induct)
  case (1 U)
  then show ?case by simp
next
  case (2 U a cs)
  show ?case
  proof (cases "hyphen_or_space U a")
    case True
    with 2 have "c = 45 \<or> c \<in> set (dropWhile (hyphen_or_space U) cs) \<and> \<not> hyphen_or_space U c"
      by auto
    then show ?thesis using set_dropWhileD by fastforce
  next
    case False
    with 2 show ?thesis by auto
  qed
qed

lemma collapse_hd:
  "s \<noteq> [] \<Longrightarrow> \<not> hyphen_or_space U (hd s) \<Longrightarrow> collapse U s \<noteq> [] \<and> hd (collapse U s) = hd s"
  by (cases s) auto

lemma single_hyphens_Cons:
  "single_hyphens xs \<Longrightarrow> c \<noteq> 45 \<or> xs = [] \<or> hd xs \<noteq> 45 \<Longrightarrow> single_hyphens (c # xs)"
  by (cases xs) auto

lemma collapse_single: "single_hyphens (collapse U s)"
proof (induction U s rule: collapse.induct)
  case (1 U)
  then show ?case by simp
next
  case (2 U a cs)
  show ?case
  proof (cases "hyphen_or_space U a")
    case True
    let ?t = "dropWhile (hyphen_or_space U) cs"
    have ih: "single_hyphens (collapse U ?t)" using 2(1) [OF True] .
    have "collapse U ?t = [] \<or> hd (collapse U ?t) \<noteq> 45"
    proof (cases "?t = []")
      case True
      then have "collapse U ?t = collapse U []" by (rule arg_cong)
      then show ?thesis by (simp only: collapse.simps simp_thms)
    next
      case False
      then have "\<not> hyphen_or_space U (hd ?t)" by (rule hd_dropWhile)
      with False collapse_hd [of ?t U] have "hd (collapse U ?t) = hd ?t" by simp
      with \<open>\<not> hyphen_or_space U (hd ?t)\<close> show ?thesis
        by (auto simp: hyphen_or_space_def)
    qed
    with ih have "single_hyphens (45 # collapse U ?t)" by (intro single_hyphens_Cons) auto
    with True show ?thesis by simp
  next
    case False
    then have "a \<noteq> 45" by (auto simp: hyphen_or_space_def)
    with 2(2) [OF False] have "single_hyphens (a # collapse U cs)"
      by (intro single_hyphens_Cons) auto
    with False show ?thesis by simp
  qed
qed

lemma collapse_id:
  "list_all (\<lambda>c. \<not> is_space U c) r \<Longrightarrow> single_hyphens r \<Longrightarrow> collapse U r = r"
proof (induction r rule: single_hyphens.induct)
  case 1
  then show ?case by simp
next
  case (2 c)
  then show ?case by (simp add: hyphen_or_space_def)
next
  case (3 a b cs)
  have rest: "collapse U (b # cs) = b # cs" using 3 by simp
  show ?case
  proof (cases "a = 45")
    case True
    with 3 have "\<not> hyphen_or_space U b" by (simp add: hyphen_or_space_def)
    then have "dropWhile (hyphen_or_space U) (b # cs) = b # cs" by simp
    with True rest show ?thesis by simp
  next
    case False
    with 3 have "\<not> hyphen_or_space U a" by (simp add: hyphen_or_space_def)
    with rest show ?thesis by simp
  qed
qed

lemma single_hyphens_append:
  "single_hyphens (xs @ ys) \<Longrightarrow> single_hyphens xs \<and> single_hyphens ys"
proof (induction xs rule: single_hyphens.induct)
  case 1
  then show ?case by simp
next
  case (2 c)
  then show ?case by (cases ys) auto
next
  case (3 a b cs)
  then show ?case by auto
qed

lemma py_strip_decomp: "\<exists>a b. s = a @ py_strip chars s @ b"
proof -
  let ?P = "\<lambda>c. c \<in> set chars"
  let ?t = "dropWhile ?P s"
  have "s = takeWhile ?P s @ ?t" by simp
  moreover have "?t = rev (dropWhile ?P (rev ?t)) @ rev (takeWhile ?P (rev ?t))"
    by (metis rev_append rev_rev_ident takeWhile_dropWhile_id)
  ultimately have "s = takeWhile ?P s @ py_strip chars s @ rev (takeWhile ?P (rev ?t))"
    unfolding py_strip_def by simp
  then show ?thesis by blast
qed

lemma py_strip_set: "set (py_strip chars s) \<subseteq> set s"
proof -
  obtain a b where "s = a @ py_strip chars s @ b" using py_strip_decomp by blast
  then have "set s = set a \<union> set (py_strip chars s) \<union> set b" by (metis set_append Un_assoc)
  then show ?thesis by auto
qed

lemma py_strip_single: "single_hyphens s \<Longrightarrow> single_hyphens (py_strip chars s)"
proof -
  assume sh: "single_hyphens s"
  obtain a b where d: "s = a @ py_strip chars s @ b" using py_strip_decomp by blast
  with sh have "single_hyphens (a @ py_strip chars s @ b)" by simp
  then have "single_hyphens (py_strip chars s @ b)" using single_hyphens_append by blast
  then show ?thesis using single_hyphens_append by blast
qed

lemma py_strip_ends:
  assumes "py_strip chars s \<noteq> []"
  shows "hd (py_strip chars s) \<notin> set chars \<and> last (py_strip chars s) \<notin> set chars"
proof -
  let ?P = "\<lambda>c. c \<in> set chars"
  let ?t = "dropWhile ?P s"
  let ?u = "dropWhile ?P (rev ?t)"
  have r: "py_strip chars s = rev ?u" by (simp add: py_strip_def)
  with assms have une: "?u \<noteq> []" by simp
  then have "\<not> ?P (hd ?u)" by (rule hd_dropWhile)
  then have l: "last (py_strip chars s) \<notin> set chars" using r une by (simp add: last_rev)
  have tne: "?t \<noteq> []"
  proof
    assume "?t = []"
    then have "?u = dropWhile ?P (rev [])" by (rule arg_cong)
    with une show False by (simp only: rev.simps dropWhile.simps simp_thms)
  qed
  then have nt: "\<not> ?P (hd ?t)" by (rule hd_dropWhile)
  have "?t = rev ?u @ rev (takeWhile ?P (rev ?t))"
    by (metis rev_append rev_rev_ident takeWhile_dropWhile_id)
  then have "hd ?t = hd (rev ?u)" using une by (metis hd_append2 rev_is_Nil_conv)
  with nt r have "hd (py_strip chars s) \<notin> set chars" by simp
  with l show ?thesis by simp
qed

lemma py_strip_id:
  "r = [] \<or> hd r \<notin> set chars \<and> last r \<notin> set chars \<Longrightarrow> py_strip chars r = r"
proof (cases "r = []")
  case True
  then show ?thesis by (simp add: py_strip_def)
next
  case False
  assume "r = [] \<or> hd r \<notin> set chars \<and> last r \<notin> set chars"
  with False have h: "hd r \<notin> set chars" and l: "last r \<notin> set chars" by auto
  from False h have "dropWhile (\<lambda>c. c \<in> set chars) r = r" by (cases r) auto
  moreover have "dropWhile (\<lambda>c. c \<in> set chars) (rev r) = rev r"
  proof (cases "rev r")
    case Nil
    with False show ?thesis by simp
  next
    case (Cons x xs)
    then have "hd (rev r) = x" by simp
    then have x: "x = last r" using False by (simp add: hd_rev)
    have "dropWhile (\<lambda>c. c \<in> set chars) (x # xs) = x # xs" using l x by simp
    then show ?thesis unfolding Cons .
  qed
  ultimately show ?thesis by (simp add: py_strip_def)
qed

lemma slugify_slug_shape: "slug_shape U (slugify U s allow_unicode)"
proof -
  define value1 where "value1 = (if allow_unicode then normalize_NFKC U s
                    else filter (\<lambda>c. c < 128) (normalize_NFKD U s))"
  define value2 where
    "value2 = filter (\<lambda>c. is_word U c \<or> is_space U c \<or> c = 45) (py_lower U value1)"
  have r: "slugify U s allow_unicode = py_strip [45, 95] (collapse U value2)"
    by (simp add: slugify_def value1_def value2_def)
  have chars: "c = 45 \<or> is_word U c \<and> \<not> is_space U c" if "c \<in> set (collapse U value2)" for c
  proof -
    from collapse_set [OF that] show ?thesis
      by (auto simp: value2_def hyphen_or_space_def)
  qed
  have "list_all (\<lambda>c. c = 45 \<or> is_word U c \<and> \<not> is_space U c) (py_strip [45, 95] (collapse U value2))"
    unfolding list_all_iff
  proof
    fix c assume "c \<in> set (py_strip [45, 95] (collapse U value2))"
    with py_strip_set have "c \<in> set (collapse U value2)" by (rule subsetD)
    then show "c = 45 \<or> is_word U c \<and> \<not> is_space U c" by (rule chars)
  qed
  moreover have "single_hyphens (py_strip [45, 95] (collapse U value2))"
    using collapse_single by (rule py_strip_single)
  moreover have "trimmed (py_strip [45, 95] (collapse U value2))"
    unfolding trimmed_def using py_strip_ends [of "[45, 95]" "collapse U value2"] by auto
  ultimately show ?thesis unfolding r slug_shape_def by simp
qed

lemma slugify_fixed:
  assumes "slug_shape U r" and "stable U allow_unicode r"
  shows "slugify U r allow_unicode = r"
proof -
  from assms(1) have chars: "list_all (\<lambda>c. c = 45 \<or> is_word U c \<and> \<not> is_space U c) r"
    and sh: "single_hyphens r" and tr: "trimmed r"
    by (simp_all add: slug_shape_def)
  from assms(2) have n: "(if allow_unicode then normalize_NFKC U r
      else filter (\<lambda>c. c < 128) (normalize_NFKD U r)) = r" and l: "py_lower U r = r"
    by (simp_all add: stable_def)
  have f: "filter (\<lambda>c. is_word U c \<or> is_space U c \<or> c = 45) r = r"
    using chars by (auto simp: list_all_iff filter_id_conv)
  have "list_all (\<lambda>c. \<not> is_space U c) r"
    using chars by (auto simp: list_all_iff)
  then have c: "collapse U r = r" using sh by (rule collapse_id)
  have s: "py_strip [45, 95] r = r"
    using tr by (intro py_strip_id) (auto simp: trimmed_def)
  show ?thesis
    unfolding slugify_def Let_def n l f c s ..
qed

lemma ascii_lower_ascii: "c < 128 \<Longrightarrow> ascii_lower c < 128 \<and> \<not> ascii_upper (ascii_lower c)"
  by (auto simp: ascii_lower_def ascii_upper_def)

lemma slugify_ascii_chars:
  assumes "c \<in> set (slugify U s False)"
  shows "c < 128 \<and> \<not> ascii_upper c"
proof -
  define value1 where "value1 = filter (\<lambda>c. c < 128) (normalize_NFKD U s)"
  define value2 where
    "value2 = filter (\<lambda>c. is_word U c \<or> is_space U c \<or> c = 45) (py_lower U value1)"
  have r: "slugify U s False = py_strip [45, 95] (collapse U value2)"
    by (simp add: slugify_def value1_def value2_def)
  have "is_ascii value1" by (simp add: is_ascii_def value1_def list_all_iff)
  then have low: "py_lower U value1 = map ascii_lower value1" by (simp add: py_lower_def)
  from assms r have "c \<in> set (py_strip [45, 95] (collapse U value2))" by simp
  with py_strip_set have "c \<in> set (collapse U value2)" by (rule subsetD)
  then have "c = 45 \<or> c \<in> set value2" using collapse_set by blast
  then show ?thesis
  proof
    assume "c = 45"
    then show ?thesis by (simp add: ascii_upper_def)
  next
    assume "c \<in> set value2"
    then have "c \<in> set (map ascii_lower value1)" using low by (simp add: value2_def)
    then obtain d where "d \<in> set value1" "c = ascii_lower d" by auto
    moreover from this have "d < 128" by (simp add: value1_def)
    ultimately show ?thesis using ascii_lower_ascii by simp
  qed
qed

lemma ascii_stable:
  assumes "\<And>c. c \<in> set r \<Longrightarrow> c < 128 \<and> \<not> ascii_upper c"
  shows "stable U False r"
proof -
  have a: "is_ascii r" using assms by (simp add: is_ascii_def list_all_iff)
  then have "normalize_NFKD U r = r" by (simp add: normalize_NFKD_def)
  moreover have "filter (\<lambda>c. c < 128) r = r"
    using assms by (simp add: filter_id_conv)
  moreover have "map ascii_lower r = r"
    using assms by (intro map_idI) (simp add: ascii_lower_def)
  ultimately show ?thesis using a by (simp add: stable_def py_lower_def)
qed

lemma slugify_ascii_slug_chars: "list_all slug_char (slugify U s False)"
  unfolding list_all_iff
proof
  fix c assume c: "c \<in> set (slugify U s False)"
  then have a: "c < 128" "\<not> ascii_upper c" using slugify_ascii_chars by blast+
  have "list_all (\<lambda>c. c = 45 \<or> is_word U c \<and> \<not> is_space U c) (slugify U s False)"
    using slugify_slug_shape [of U s False] by (simp add: slug_shape_def)
  with c have "c = 45 \<or> is_word U c" by (auto simp: list_all_iff)
  with a show "slug_char c"
    by (auto simp: slug_char_def is_word_def ascii_word_def ascii_upper_def)
qed

text \<open>
  Claim C9, as amended. Without \<open>allow_unicode\<close>, \<open>slugify\<close> is idempotent for every input,
  and its result contains only lower-case ASCII letters, digits, underscores and single
  hyphens, with neither a hyphen nor an underscore at either end. With \<open>allow_unicode\<close>,
  \<open>slugify (slugify s) = slugify s\<close> holds whenever NFKC normalisation and lowering leave
  \<open>slugify s\<close> as it is.
\<close>

theorem slugify_idempotent:
  assumes "allow_unicode \<Longrightarrow>
      normalize_NFKC U (slugify U s True) = slugify U s True
      \<and> py_lower U (slugify U s True) = slugify U s True"
  shows "slugify U (slugify U s allow_unicode) allow_unicode = slugify U s allow_unicode
    \<and> list_all slug_char (slugify U s False)
    \<and> single_hyphens (slugify U s False)
    \<and> trimmed (slugify U s False)"
proof -
  have st: "stable U allow_unicode (slugify U s allow_unicode)"
  proof (cases allow_unicode)
    case True
    with assms show ?thesis by (simp add: stable_def)
  next
    case False
    have "stable U False (slugify U s False)"
      using slugify_ascii_chars by (rule ascii_stable)
    with False show ?thesis by simp
  qed
  have "slugify U (slugify U s allow_unicode) allow_unicode = slugify U s allow_unicode"
    using slugify_slug_shape st by (rule slugify_fixed)
  moreover have "single_hyphens (slugify U s False)" "trimmed (slugify U s False)"
    using slugify_slug_shape [of U s False] by (simp_all add: slug_shape_def)
  ultimately show ?thesis using slugify_ascii_slug_chars by simp
qed

lemmas slugify_eval =
  slugify_def normalize_NFKC_def normalize_NFKD_def is_ascii_def py_lower_def hangul_udb_def
  is_word_def is_space_def hyphen_or_space_def py_strip_def is_L_def is_V_def is_T_def is_LV_def
  decompose_hangul_def
  ascii_lower_def ascii_upper_def ascii_word_def ascii_space_def codepoints_def

theorem slugify_idempotent_witness:
  "normalize_NFKC hangul_udb (slugify hangul_udb (codepoints ''My DB! Name--2024'') True)
     = slugify hangul_udb (codepoints ''My DB! Name--2024'') True
   \<and> py_lower hangul_udb (slugify hangul_udb (codepoints ''My DB! Name--2024'') True)
     = slugify hangul_udb (codepoints ''My DB! Name--2024'') True
   \<and> slugify hangul_udb (codepoints ''My DB! Name--2024'') True = codepoints ''my-db-name-2024''
   \<and> slugify hangul_udb (codepoints ''my-db-name-2024'') True = codepoints ''my-db-name-2024''"
proof -
  have e: "slugify hangul_udb (codepoints ''My DB! Name--2024'') True = codepoints ''my-db-name-2024''"
    by (simp add: slugify_eval)
  have n: "normalize_NFKC hangul_udb (codepoints ''my-db-name-2024'') = codepoints ''my-db-name-2024''"
    by (simp add: slugify_eval)
  have l: "py_lower hangul_udb (codepoints ''my-db-name-2024'') = codepoints ''my-db-name-2024''"
    by (simp add: slugify_eval)
  have h: "True \<Longrightarrow>
      normalize_NFKC hangul_udb (slugify hangul_udb (codepoints ''My DB! Name--2024'') True)
        = slugify hangul_udb (codepoints ''My DB! Name--2024'') True
      \<and> py_lower hangul_udb (slugify hangul_udb (codepoints ''My DB! Name--2024'') True)
        = slugify hangul_udb (codepoints ''My DB! Name--2024'') True"
    unfolding e using n l by simp
  from slugify_idempotent [of True hangul_udb "codepoints ''My DB! Name--2024''", OF h]
  have "slugify hangul_udb (slugify hangul_udb (codepoints ''My DB! Name--2024'') True) True
      = slugify hangul_udb (codepoints ''My DB! Name--2024'') True"
    by (rule conjunct1)
  then have i: "slugify hangul_udb (codepoints ''my-db-name-2024'') True = codepoints ''my-db-name-2024''"
    unfolding e .
  from h e i show ?thesis by simp
qed

text \<open>
  Claim C9, as stated, fails with \<open>allow_unicode\<close>: for a Hangul leading consonant, an
  exclamation mark and a Hangul vowel (code points 0x1100, 0x21, 0x1161) the first pass
  removes the exclamation mark, which leaves the two letters side by side, and the second
  pass composes them into the syllable 0xAC00.
\<close>

theorem slugify_unicode_not_idempotent:
  "slugify hangul_udb [0x1100, 0x21, 0x1161] True = [0x1100, 0x1161]
   \<and> slugify hangul_udb (slugify hangul_udb [0x1100, 0x21, 0x1161] True) True = [0xAC00]
   \<and> slugify hangul_udb (slugify hangul_udb [0x1100, 0x21, 0x1161] True) True
       \<noteq> slugify hangul_udb [0x1100, 0x21, 0x1161] True"
  by (simp add: slugify_eval)

end
